theory Spec2Isabelle
  imports Complex_Main "HOL-Library.Multiset"
begin

section \<open>Python values, exceptions and dictionaries\<close>

text \<open>
  The interpretation phase (\<^verbatim>\<open>interpretation.py\<close>) is Python 2 code
  (\<^verbatim>\<open>iteritems\<close>). Its exceptions are values of \<open>error\<close>; a function that can
  raise returns \<open>error + 'a\<close> with \<open>Inl\<close> for the exception.

  Probabilities are Python floats in the source. They are modelled as exact
  rationals: rounding is not part of the model.
\<close>

datatype error = KeyError | AttributeError | ValueError | TypeError

text \<open>
  A field of a stored document read through \<^verbatim>\<open>d.get(name)\<close> or
  \<^verbatim>\<open>d[name]\<close>: the key may be missing, may hold \<^verbatim>\<open>None\<close>, or holds a value.
\<close>

datatype 'a field = Absent | PyNone | Value 'a

text \<open>The year of a document is passed through \<^verbatim>\<open>int(...)\<close>: it is an integer or a string.\<close>

datatype pyval = PInt int | PStr string

text \<open>
  A Python dictionary is an association list with distinct keys; the order of the
  list is the iteration order of the dictionary (which CPython 2 derives from the
  hashes of the keys, so it is neither sorted nor the insertion order in general).
\<close>

definition dict_contains :: "'k \<Rightarrow> ('k \<times> 'v) list \<Rightarrow> bool" where
  "dict_contains k m = (k \<in> fst ` set m)"

fun dict_set :: "'k \<Rightarrow> 'v \<Rightarrow> ('k \<times> 'v) list \<Rightarrow> ('k \<times> 'v) list" where
  "dict_set k v [] = [(k, v)]"
| "dict_set k v (p # ps) = (if fst p = k then (k, v) # ps else p # dict_set k v ps)"

text \<open>\<^verbatim>\<open>m[k].append(x)\<close> for a key that is present.\<close>

definition dict_append :: "'k \<Rightarrow> 'v \<Rightarrow> ('k \<times> 'v list) list \<Rightarrow> ('k \<times> 'v list) list" where
  "dict_append k x m = map (\<lambda>(k', b). if k' = k then (k', b @ [x]) else (k', b)) m"

subsection \<open>\<^verbatim>\<open>int(s)\<close> and \<^verbatim>\<open>str(n)\<close>\<close>

definition is_space :: "char \<Rightarrow> bool" where
  "is_space c = (of_char c = (32::nat) \<or> (9 \<le> (of_char c :: nat) \<and> (of_char c :: nat) \<le> 13))"

definition is_digit :: "char \<Rightarrow> bool" where
  "is_digit c = (48 \<le> (of_char c :: nat) \<and> (of_char c :: nat) \<le> 57)"

definition digit_val :: "char \<Rightarrow> nat" where
  "digit_val c = of_char c - 48"

definition dec_val :: "string \<Rightarrow> nat" where
  "dec_val ds = foldl (\<lambda>a c. 10 * a + digit_val c) 0 ds"

text \<open>
  \<^verbatim>\<open>int(s)\<close> of Python 2.7 on a string, base 10: white space, an optional sign,
  white space, at least one decimal digit, white space, and nothing else; anything
  else raises \<^verbatim>\<open>ValueError\<close>. Strings are ASCII here.
\<close>

definition py_int :: "string \<Rightarrow> error + int" where
  "py_int s =
     (let s1 = dropWhile is_space s;
          neg = (case s1 of [] \<Rightarrow> False | c # _ \<Rightarrow> c = CHR ''-'');
          s2 = (case s1 of [] \<Rightarrow> s1 | c # r \<Rightarrow> if c = CHR ''-'' \<or> c = CHR ''+'' then r else s1);
          s3 = dropWhile is_space s2;
          ds = takeWhile is_digit s3;
          rest = dropWhile is_space (dropWhile is_digit s3)
      in if ds = [] \<or> rest \<noteq> [] then Inl ValueError
         else Inr (if neg then - int (dec_val ds) else int (dec_val ds)))"

definition py_int_val :: "pyval \<Rightarrow> error + int" where
  "py_int_val x = (case x of PInt i \<Rightarrow> Inr i | PStr s \<Rightarrow> py_int s)"

definition digit_chr :: "nat \<Rightarrow> char" where
  "digit_chr d = ''0123456789'' ! d"

fun digits :: "nat \<Rightarrow> string" where
  "digits n = (if n < 10 then [digit_chr n] else digits (n div 10) @ [digit_chr (n mod 10)])"

declare digits.simps [simp del]

text \<open>\<^verbatim>\<open>str(n)\<close> of an integer: its decimal digits, with a minus sign when negative.\<close>

definition py_str :: "int \<Rightarrow> string" where
  "py_str i = (if i < 0 then CHR ''-'' # digits (nat (- i)) else digits (nat i))"

subsection \<open>\<^verbatim>\<open>max\<close> and \<^verbatim>\<open>list.index\<close>\<close>

text \<open>
  \<^verbatim>\<open>max(iterable, key=f)\<close>: the running maximum is replaced only by a strictly
  greater item, so the first maximal item in iteration order is returned; an empty
  iterable raises \<^verbatim>\<open>ValueError\<close>.
\<close>

fun max_loop :: "('a \<Rightarrow> rat) \<Rightarrow> 'a \<Rightarrow> 'a list \<Rightarrow> 'a" where
  "max_loop f best [] = best"
| "max_loop f best (x # xs) = max_loop f (if f best < f x then x else best) xs"

definition py_max :: "('a \<Rightarrow> rat) \<Rightarrow> 'a list \<Rightarrow> error + 'a" where
  "py_max f xs = (case xs of [] \<Rightarrow> Inl ValueError | x # rest \<Rightarrow> Inr (max_loop f x rest))"

fun list_index :: "'a list \<Rightarrow> 'a \<Rightarrow> error + nat" where
  "list_index [] x = Inl ValueError"
| "list_index (y # ys) x =
     (if y = x then Inr 0
      else (case list_index ys x of Inl e \<Rightarrow> Inl e | Inr i \<Rightarrow> Inr (Suc i)))"

section \<open>Documents and the document store\<close>

text \<open>
  A record of the store. The store returns records with at least journal, year and
  title; \<open>tokens\<close> is what pre-processing leaves, \<open>topics\<close> the persisted
  distribution, keyed by the stringified topic id.
\<close>

record publication =
  journal :: string
  year :: pyval
  title :: string
  tokens :: "string list field"
  topics :: "(string \<times> rat) list field"

text \<open>
  Modelled from the spec: the document store (\<^verbatim>\<open>database.MongoDatabase\<close>, not part of
  the sources at hand) has named collections; \<^verbatim>\<open>read_collection\<close> returns the records
  of one collection in a stable order and \<^verbatim>\<open>insert_one_to_collection\<close> adds one record
  to one collection.
\<close>

type_synonym database = "string \<Rightarrow> publication list"

definition read_collection :: "database \<Rightarrow> string \<Rightarrow> publication list" where
  "read_collection db name = db name"

definition insert_one_to_collection :: "database \<Rightarrow> string \<Rightarrow> publication \<Rightarrow> database" where
  "insert_one_to_collection db name doc = db(name := db name @ [doc])"

section \<open>Inference pass\<close>

text \<open>The loop \<^verbatim>\<open>for t in topics: dic_topics[str(t[0])] = float(t[1])\<close>.\<close>

fun dic_topics_loop :: "(int \<times> rat) list \<Rightarrow> (string \<times> rat) list \<Rightarrow> (string \<times> rat) list" where
  "dic_topics_loop [] dic = dic"
| "dic_topics_loop (t # ts) dic = dic_topics_loop ts (dict_set (py_str (fst t)) (snd t) dic)"

text \<open>
  The trained model is a parameter: \<open>model toks\<close> stands for
  \<^verbatim>\<open>model.get_document_topics(model.id2word.doc2bow(toks))\<close>, a list of
  (topic id, probability) pairs.
\<close>

fun infer_loop :: "(string list \<Rightarrow> (int \<times> rat) list) \<Rightarrow> publication list \<Rightarrow> database \<Rightarrow> database" where
  "infer_loop model [] db = db"
| "infer_loop model (d # D) db =
     (case tokens d of
        Value toks \<Rightarrow>
          infer_loop model D
            (insert_one_to_collection db ''publications''
               \<lparr>journal = journal d, year = year d, title = title d, tokens = Absent,
                topics = Value (dic_topics_loop (model toks) [])\<rparr>)
      | _ \<Rightarrow> infer_loop model D db)"

definition infer_document_topic_distribution ::
  "(string list \<Rightarrow> (int \<times> rat) list) \<Rightarrow> database \<Rightarrow> database" where
  "infer_document_topic_distribution model db =
     infer_loop model (read_collection db ''publications_raw'') db"

section \<open>Ordered topic lists\<close>

text \<open>\<^verbatim>\<open>d['topics'].iteritems()\<close>: a missing key and a \<^verbatim>\<open>None\<close> value both raise.\<close>

definition topics_iteritems :: "publication \<Rightarrow> error + (string \<times> rat) list" where
  "topics_iteritems d =
     (case topics d of Absent \<Rightarrow> Inl KeyError | PyNone \<Rightarrow> Inl AttributeError | Value t \<Rightarrow> Inr t)"

text \<open>The sort keys \<^verbatim>\<open>int(x[0])\<close> of the items, computed before the sort.\<close>

fun int_keys :: "(string \<times> rat) list \<Rightarrow> error + (int \<times> rat) list" where
  "int_keys [] = Inr []"
| "int_keys (x # xs) =
     (case py_int (fst x) of
        Inl e \<Rightarrow> Inl e
      | Inr i \<Rightarrow> (case int_keys xs of Inl e \<Rightarrow> Inl e | Inr ys \<Rightarrow> Inr ((i, snd x) # ys)))"

text \<open>
  \<^verbatim>\<open>[value for key, value in sorted(t.iteritems(), key=lambda x: int(x[0]))]\<close>;
  Python's sort is stable, as \<open>sort_key\<close> is.
\<close>

definition sorted_topics :: "(string \<times> rat) list \<Rightarrow> error + rat list" where
  "sorted_topics t =
     (case int_keys t of Inl e \<Rightarrow> Inl e | Inr kvs \<Rightarrow> Inr (map snd (sort_key fst kvs)))"

text \<open>
  The dense vector as the specification words it: index \<open>i\<close> holds
  \<^verbatim>\<open>sparse.get(i, 0.0)\<close>, for \<open>i\<close> below \<open>K\<close>.
\<close>

definition densify_spec :: "(int \<times> rat) list \<Rightarrow> nat \<Rightarrow> rat list" where
  "densify_spec sparse K =
     map (\<lambda>i. case map_of sparse (int i) of None \<Rightarrow> 0 | Some p \<Rightarrow> p) [0..<K]"

section \<open>Dominant topic of the titles table\<close>

type_synonym title_row = "pyval \<times> string \<times> string \<times> string \<times> rat"

fun titles_loop :: "publication list \<Rightarrow> title_row list \<Rightarrow> error + title_row list" where
  "titles_loop [] titles = Inr titles"
| "titles_loop (d # D) titles =
     (case topics_iteritems d of
        Inl e \<Rightarrow> Inl e
      | Inr items \<Rightarrow>
          (case py_max snd items of
             Inl e \<Rightarrow> Inl e
           | Inr dominant_topic \<Rightarrow>
               titles_loop D
                 (titles @ [(year d, title d, journal d, fst dominant_topic, snd dominant_topic)])))"

text \<open>The rows handed to \<^verbatim>\<open>save_csv\<close> by \<^verbatim>\<open>get_document_title_per_topic\<close>.\<close>

definition get_document_title_per_topic :: "publication list \<Rightarrow> error + title_row list" where
  "get_document_title_per_topic D = titles_loop D []"

section \<open>Grouping\<close>

fun year_loop ::
  "publication list \<Rightarrow> (int \<times> rat list list) list \<Rightarrow> error + (int \<times> rat list list) list" where
  "year_loop [] year_to_topics = Inr year_to_topics"
| "year_loop (d # D) year_to_topics =
     (case py_int_val (year d) of
        Inl e \<Rightarrow> Inl e
      | Inr y \<Rightarrow>
          (let m = (if \<not> dict_contains y year_to_topics then dict_set y [] year_to_topics
                    else year_to_topics)
           in case topics_iteritems d of
                Inl e \<Rightarrow> Inl e
              | Inr items \<Rightarrow>
                  (case sorted_topics items of
                     Inl e \<Rightarrow> Inl e
                   | Inr ts \<Rightarrow> year_loop D (dict_append y ts m))))"

definition get_year_to_topics :: "publication list \<Rightarrow> error + (int \<times> rat list list) list" where
  "get_year_to_topics D = year_loop D []"

text \<open>The first loop of \<^verbatim>\<open>plot_topics_in_journals\<close>, with its guard on \<^verbatim>\<open>d.get('topics')\<close>.\<close>

fun journal_loop ::
  "publication list \<Rightarrow> (string \<times> rat list list) list \<Rightarrow> error + (string \<times> rat list list) list" where
  "journal_loop [] journal_to_topics = Inr journal_to_topics"
| "journal_loop (d # D) journal_to_topics =
     (case topics d of
        Value t \<Rightarrow>
          (let m = (if \<not> dict_contains (journal d) journal_to_topics
                    then dict_set (journal d) [] journal_to_topics else journal_to_topics)
           in case sorted_topics t of
                Inl e \<Rightarrow> Inl e
              | Inr ts \<Rightarrow> journal_loop D (dict_append (journal d) ts m))
      | _ \<Rightarrow> journal_loop D journal_to_topics)"

definition plot_topics_in_journals_buckets ::
  "publication list \<Rightarrow> error + (string \<times> rat list list) list" where
  "plot_topics_in_journals_buckets D = journal_loop D []"

text \<open>
  The first loop of \<^verbatim>\<open>plot_topic_co_occurrence\<close>: the group key is
  \<^verbatim>\<open>topics.index(max(topics))\<close>, a position in the ordered list.
\<close>

fun dominant_loop ::
  "publication list \<Rightarrow> (nat \<times> rat list list) list \<Rightarrow> error + (nat \<times> rat list list) list" where
  "dominant_loop [] dominant_id_to_topics = Inr dominant_id_to_topics"
| "dominant_loop (d # D) dominant_id_to_topics =
     (case topics_iteritems d of
        Inl e \<Rightarrow> Inl e
      | Inr items \<Rightarrow>
          (case sorted_topics items of
             Inl e \<Rightarrow> Inl e
           | Inr ts \<Rightarrow>
               (case py_max (\<lambda>x. x) ts of
                  Inl e \<Rightarrow> Inl e
                | Inr mx \<Rightarrow>
                    (case list_index ts mx of
                       Inl e \<Rightarrow> Inl e
                     | Inr max_topic_id \<Rightarrow>
                         (let m = (if \<not> dict_contains max_topic_id dominant_id_to_topics
                                   then dict_set max_topic_id [] dominant_id_to_topics
                                   else dominant_id_to_topics)
                          in dominant_loop D (dict_append max_topic_id ts m))))))"

definition plot_topic_co_occurrence_buckets ::
  "publication list \<Rightarrow> error + (nat \<times> rat list list) list" where
  "plot_topic_co_occurrence_buckets D = dominant_loop D []"

section \<open>Cumulative distributions\<close>

text \<open>
  \<^verbatim>\<open>np.mean(np.array(v), axis = 0)\<close>. Rows of one length give the column means. Rows
  of different lengths give an array of list objects, whose sum is a list that
  cannot be divided: \<^verbatim>\<open>TypeError\<close>. No row at all gives the scalar \<^verbatim>\<open>nan\<close>.
\<close>

datatype npval = NaN | Arr "rat list"

definition np_mean_axis0 :: "rat list list \<Rightarrow> error + npval" where
  "np_mean_axis0 v =
     (case v of
        [] \<Rightarrow> Inr NaN
      | r # rs \<Rightarrow>
          if \<forall>r' \<in> set rs. length r' = length r
          then Inr (Arr (map (\<lambda>j. sum_list (map (\<lambda>row. row ! j) v) / of_nat (length v))
                           [0..<length r]))
          else Inl TypeError)"

fun cum_loop :: "('k \<times> rat list list) list \<Rightarrow> ('k \<times> npval) list \<Rightarrow> error + ('k \<times> npval) list" where
  "cum_loop [] cum = Inr cum"
| "cum_loop (kv # rest) cum =
     (case np_mean_axis0 (snd kv) of
        Inl e \<Rightarrow> Inl e
      | Inr mean_topics \<Rightarrow> cum_loop rest (dict_set (fst kv) mean_topics cum))"

definition get_year_to_cum_topics :: "(int \<times> rat list list) list \<Rightarrow> error + (int \<times> npval) list" where
  "get_year_to_cum_topics year_to_topics = cum_loop year_to_topics []"

definition get_journal_to_cum_topics ::
  "(string \<times> rat list list) list \<Rightarrow> error + (string \<times> npval) list" where
  "get_journal_to_cum_topics journal_to_topics = cum_loop journal_to_topics []"

text \<open>\<^verbatim>\<open>np.mean(np.array(v), axis=0) * 100.\<close> of the co-occurrence path.\<close>

definition times100 :: "npval \<Rightarrow> npval" where
  "times100 a = (case a of NaN \<Rightarrow> NaN | Arr v \<Rightarrow> Arr (map (\<lambda>x. x * 100) v))"

fun dominant_cum_loop ::
  "(nat \<times> rat list list) list \<Rightarrow> (nat \<times> npval) list \<Rightarrow> error + (nat \<times> npval) list" where
  "dominant_cum_loop [] cum = Inr cum"
| "dominant_cum_loop (kv # rest) cum =
     (case np_mean_axis0 (snd kv) of
        Inl e \<Rightarrow> Inl e
      | Inr mean_topics \<Rightarrow> dominant_cum_loop rest (dict_set (fst kv) (times100 mean_topics) cum))"

definition plot_topic_co_occurrence_cum ::
  "(nat \<times> rat list list) list \<Rightarrow> error + (nat \<times> npval) list" where
  "plot_topic_co_occurrence_cum dominant_id_to_topics = dominant_cum_loop dominant_id_to_topics []"

section \<open>Self co-occurrence\<close>

text \<open>
  Modelled from the spec: \<^verbatim>\<open>get_topic_label\<close> (of \<^verbatim>\<open>helper_functions\<close>, not part of
  the sources at hand) is the fixed labelling of topic ids. Labels of different ids
  differ and none is \<^verbatim>\<open>'max'\<close>, so the rows and columns of the data frame of the
  co-occurrence report are named by the ids themselves. A cell is \<open>None\<close> for
  \<^verbatim>\<open>nan\<close>.
\<close>

record dataframe =
  df_index :: "nat list"
  df_columns :: "(nat \<times> rat option list) list"

text \<open>
  \<^verbatim>\<open>DataFrame.from_dict\<close> makes one column per key of the dictionary and one row per
  position \<open>0, 1, ...\<close>; arrays of different lengths raise \<^verbatim>\<open>ValueError\<close>, a scalar is
  repeated down its column, and scalars alone raise \<^verbatim>\<open>ValueError\<close>. The order of the
  columns is of no concern: the report sorts them before plotting.
\<close>

definition from_dict :: "(nat \<times> npval) list \<Rightarrow> error + dataframe" where
  "from_dict cum =
     (let lens = concat (map (\<lambda>kv. case snd kv of NaN \<Rightarrow> [] | Arr v \<Rightarrow> [length v]) cum)
      in if cum = [] then Inr \<lparr>df_index = [], df_columns = []\<rparr>
         else (case lens of
                 [] \<Rightarrow> Inl ValueError
               | n # ns \<Rightarrow>
                   if \<forall>n' \<in> set ns. n' = n
                   then Inr \<lparr>df_index = [0..<n],
                             df_columns =
                               map (\<lambda>kv. (fst kv, case snd kv of NaN \<Rightarrow> replicate n None
                                                   | Arr v \<Rightarrow> map Some v)) cum\<rparr>
                   else Inl ValueError))"

text \<open>
  The loop over \<^verbatim>\<open>df.iterrows()\<close> with \<^verbatim>\<open>df[index][index] = 0.0\<close>: the column named
  like the row is looked up (\<^verbatim>\<open>KeyError\<close> when there is none) and its cell in that row
  is set to zero. The column \<^verbatim>\<open>'max'\<close>, which the loop fills and the report drops
  before plotting, is left out.
\<close>

fun suppress_loop :: "nat list \<Rightarrow> dataframe \<Rightarrow> error + dataframe" where
  "suppress_loop [] df = Inr df"
| "suppress_loop (i # rest) df =
     (if dict_contains i (df_columns df)
      then suppress_loop rest
             (df\<lparr>df_columns :=
                   map (\<lambda>(k, col). if k = i then (k, col[i := Some 0]) else (k, col))
                     (df_columns df)\<rparr>)
      else Inl KeyError)"

definition self_suppress :: "dataframe \<Rightarrow> error + dataframe" where
  "self_suppress df = suppress_loop (df_index df) df"

definition plot_topic_co_occurrence_frame :: "publication list \<Rightarrow> error + dataframe" where
  "plot_topic_co_occurrence_frame D =
     (case plot_topic_co_occurrence_buckets D of
        Inl e \<Rightarrow> Inl e
      | Inr dominant_id_to_topics \<Rightarrow>
          (case plot_topic_co_occurrence_cum dominant_id_to_topics of
             Inl e \<Rightarrow> Inl e
           | Inr dominant_id_to_cum_topics \<Rightarrow>
               (case from_dict dominant_id_to_cum_topics of
                  Inl e \<Rightarrow> Inl e
                | Inr df \<Rightarrow> self_suppress df)))"

section \<open>The three grouping loops as one\<close>

text \<open>
  What one document contributes to a grouping: an error, nothing, or one ordered
  topic list under one key. The three loops of the source differ only in this.
\<close>

definition year_entry :: "publication \<Rightarrow> error + (int \<times> rat list) option" where
  "year_entry d =
     (case py_int_val (year d) of
        Inl e \<Rightarrow> Inl e
      | Inr y \<Rightarrow>
          (case topics_iteritems d of
             Inl e \<Rightarrow> Inl e
           | Inr items \<Rightarrow>
               (case sorted_topics items of Inl e \<Rightarrow> Inl e | Inr ts \<Rightarrow> Inr (Some (y, ts)))))"

definition journal_entry :: "publication \<Rightarrow> error + (string \<times> rat list) option" where
  "journal_entry d =
     (case topics d of
        Value t \<Rightarrow> (case sorted_topics t of Inl e \<Rightarrow> Inl e | Inr ts \<Rightarrow> Inr (Some (journal d, ts)))
      | _ \<Rightarrow> Inr None)"

definition dominant_entry :: "publication \<Rightarrow> error + (nat \<times> rat list) option" where
  "dominant_entry d =
     (case topics_iteritems d of
        Inl e \<Rightarrow> Inl e
      | Inr items \<Rightarrow>
          (case sorted_topics items of
             Inl e \<Rightarrow> Inl e
           | Inr ts \<Rightarrow>
               (case py_max (\<lambda>x. x) ts of
                  Inl e \<Rightarrow> Inl e
                | Inr mx \<Rightarrow>
                    (case list_index ts mx of
                       Inl e \<Rightarrow> Inl e
                     | Inr max_topic_id \<Rightarrow> Inr (Some (max_topic_id, ts))))))"

definition bucket_add :: "'k \<Rightarrow> rat list \<Rightarrow> ('k \<times> rat list list) list \<Rightarrow> ('k \<times> rat list list) list" where
  "bucket_add k ts m = dict_append k ts (if \<not> dict_contains k m then dict_set k [] m else m)"

fun contributions ::
  "(publication \<Rightarrow> error + ('k \<times> rat list) option) \<Rightarrow> publication list \<Rightarrow>
   error + ('k \<times> rat list) list" where
  "contributions entry [] = Inr []"
| "contributions entry (d # D) =
     (case entry d of
        Inl e \<Rightarrow> Inl e
      | Inr c \<Rightarrow>
          (case contributions entry D of
             Inl e \<Rightarrow> Inl e
           | Inr es \<Rightarrow> Inr (case c of None \<Rightarrow> es | Some kt \<Rightarrow> kt # es)))"

text \<open>The bucket of key \<open>k\<close> among the contributions, in document order.\<close>

definition bucket_of :: "'k \<Rightarrow> ('k \<times> rat list) list \<Rightarrow> rat list list" where
  "bucket_of k es = map snd (filter (\<lambda>kt. fst kt = k) es)"

text \<open>The reducing loops, with what is done to each mean as a parameter.\<close>

fun reduce_loop ::
  "(npval \<Rightarrow> npval) \<Rightarrow> ('k \<times> rat list list) list \<Rightarrow> ('k \<times> npval) list \<Rightarrow>
   error + ('k \<times> npval) list" where
  "reduce_loop g [] cum = Inr cum"
| "reduce_loop g (kv # rest) cum =
     (case np_mean_axis0 (snd kv) of
        Inl e \<Rightarrow> Inl e
      | Inr mean_topics \<Rightarrow> reduce_loop g rest (dict_set (fst kv) (g mean_topics) cum))"

section \<open>Integer literals and their strings\<close>

lemma lt10: "(d::nat) < 10 \<longleftrightarrow> d \<in> {0,1,2,3,4,5,6,7,8,9}"
  by auto

lemma digit_val_chr: "d < 10 \<Longrightarrow> digit_val (digit_chr d) = d"
  unfolding lt10 by (auto simp add: digit_val_def digit_chr_def)

lemma is_digit_chr: "d < 10 \<Longrightarrow> is_digit (digit_chr d)"
  unfolding lt10 by (auto simp add: is_digit_def digit_chr_def)

lemma digit_not_space: "is_digit c \<Longrightarrow> \<not> is_space c"
  by (auto simp add: is_digit_def is_space_def)

lemma digit_not_sign: "is_digit c \<Longrightarrow> c \<noteq> CHR ''-'' \<and> c \<noteq> CHR ''+''"
  by (auto simp add: is_digit_def)

lemma digits_all: "c \<in> set (digits n) \<Longrightarrow> is_digit c"
  by (induction n rule: digits.induct) (subst (asm) digits.simps, auto simp: is_digit_chr split: if_splits)

lemma digits_ne: "digits n \<noteq> []"
  by (subst digits.simps) simp

lemma dec_val_digits: "dec_val (digits n) = n"
  by (induction n rule: digits.induct) (subst digits.simps, auto simp: dec_val_def digit_val_chr)

lemma digits_hd: "\<exists>c cs. digits n = c # cs \<and> is_digit c"
  using digits_ne [of n] digits_all [of _ n] by (cases "digits n") auto

lemma takeWhile_digits: "takeWhile is_digit (digits n) = digits n"
  by (simp add: digits_all)

lemma dropWhile_digits: "dropWhile is_digit (digits n) = []"
  by (simp add: digits_all)

lemma py_int_unsigned:
  assumes "ds \<noteq> []" and "\<forall>c \<in> set ds. is_digit c"
  shows "py_int ds = Inr (int (dec_val ds))"
proof -
  obtain c cs where h: "ds = c # cs" "is_digit c"
    using assms by (cases ds) auto
  have a: "dropWhile is_space ds = ds"
    using h by (simp add: digit_not_space)
  have t: "takeWhile is_digit ds = ds" and d: "dropWhile is_digit ds = []"
    using assms(2) by simp_all
  have s: "(case ds of [] \<Rightarrow> ds | c # r \<Rightarrow> if c = CHR ''-'' \<or> c = CHR ''+'' then r else ds) = ds"
    using h digit_not_sign [OF h(2)] by simp
  have n: "(case ds of [] \<Rightarrow> False | c # x \<Rightarrow> c = CHR ''-'') = False"
    using h digit_not_sign [OF h(2)] by simp
  show ?thesis
    unfolding py_int_def Let_def a s n t d using assms(1) by simp
qed

lemma py_int_signed:
  assumes "ds \<noteq> []" and "\<forall>c \<in> set ds. is_digit c"
  shows "py_int (CHR ''-'' # ds) = Inr (- int (dec_val ds))"
proof -
  obtain c cs where h: "ds = c # cs" "is_digit c"
    using assms by (cases ds) auto
  have a: "dropWhile is_space ds = ds"
    using h by (simp add: digit_not_space)
  have b: "dropWhile is_space (CHR ''-'' # ds) = CHR ''-'' # ds"
    by (simp add: is_space_def)
  have t: "takeWhile is_digit ds = ds" and d: "dropWhile is_digit ds = []"
    using assms(2) by simp_all
  show ?thesis
    unfolding py_int_def Let_def b list.case using assms(1) by (simp add: a t d)
qed

lemma py_int_digits: "py_int (digits n) = Inr (int n)"
  using py_int_unsigned [of "digits n"] by (simp add: digits_ne digits_all dec_val_digits)

lemma py_int_minus_digits: "py_int (CHR ''-'' # digits n) = Inr (- int n)"
  using py_int_signed [of "digits n"] by (simp add: digits_ne digits_all dec_val_digits)

lemma py_int_py_str: "py_int (py_str i) = Inr i"
  by (simp add: py_str_def py_int_digits py_int_minus_digits)

lemma py_str_inj: "py_str i = py_str j \<Longrightarrow> i = j"
  by (metis py_int_py_str sum.inject(2))

section \<open>The ordered topic list against the dense vector\<close>

lemma int_keys_snd: "int_keys t = Inr sp \<Longrightarrow> map snd sp = map snd t"
  by (induction t arbitrary: sp) (auto split: sum.splits)

lemma int_keys_length: "int_keys t = Inr sp \<Longrightarrow> length sp = length t"
  using int_keys_snd [of t sp] by (metis length_map)

lemma int_keys_Inr_iff: "(\<exists>sp. int_keys t = Inr sp) \<longleftrightarrow> (\<forall>x \<in> set t. \<exists>i. py_int (fst x) = Inr i)"
  by (induction t) (auto split: sum.splits)

lemma if_error: "(if c then Inl ValueError else Inr x) = Inl e \<Longrightarrow> e = ValueError"
  by (cases c) simp_all

lemma py_int_error: "py_int s = Inl e \<Longrightarrow> e = ValueError"
  unfolding py_int_def Let_def by (rule if_error)

lemma int_keys_error: "int_keys t = Inl e \<Longrightarrow> e = ValueError"
  by (induction t) (auto split: sum.splits dest: py_int_error)

lemma sorted_topics_Inr:
  "int_keys t = Inr sp \<Longrightarrow> sorted_topics t = Inr (map snd (sort_key fst sp))"
  by (simp add: sorted_topics_def)

lemma sorted_topics_length: "sorted_topics t = Inr v \<Longrightarrow> length v = length t"
  by (auto simp: sorted_topics_def int_keys_length split: sum.splits)

lemma sorted_topics_mset: "sorted_topics t = Inr v \<Longrightarrow> mset v = mset (map snd t)"
proof -
  assume a: "sorted_topics t = Inr v"
  then obtain sp where sp: "int_keys t = Inr sp" and v: "v = map snd (sort_key fst sp)"
    by (auto simp: sorted_topics_def split: sum.splits)
  have "mset v = image_mset snd (mset (sort_key fst sp))"
    using v by simp
  also have "\<dots> = mset (map snd sp)"
    by simp
  finally show ?thesis
    using int_keys_snd [OF sp] by simp
qed

lemma alist_values:
  "distinct (map fst ps) \<Longrightarrow> map snd ps = map (\<lambda>k. the (map_of ps k)) (map fst ps)"
proof (induction ps)
  case Nil
  show ?case by simp
next
  case (Cons p ps)
  have "\<And>k. k \<in> set (map fst ps) \<Longrightarrow> map_of (p # ps) k = map_of ps k"
    using Cons.prems by (cases p) auto
  then have "map (\<lambda>k. the (map_of (p # ps) k)) (map fst ps) = map (\<lambda>k. the (map_of ps k)) (map fst ps)"
    by (intro map_cong) auto
  then show ?case
    using Cons by (cases p) simp
qed

lemma map_of_sort_key:
  assumes "distinct (map fst ps)"
  shows "map_of (sort_key f ps) = map_of ps"
proof (rule ext)
  fix k
  have d: "distinct (map fst (sort_key f ps))"
    using assms by (metis distinct_map distinct_sort set_sort)
  show "map_of (sort_key f ps) k = map_of ps k"
  proof (cases "map_of ps k")
    case None
    then have "k \<notin> fst ` set ps"
      by (simp add: map_of_eq_None_iff)
    then have "k \<notin> fst ` set (sort_key f ps)"
      by simp
    then have "map_of (sort_key f ps) k = None"
      by (simp only: map_of_eq_None_iff not_False_eq_True)
    then show ?thesis using None by simp
  next
    case (Some p)
    then have "(k, p) \<in> set (sort_key f ps)"
      using assms by simp
    then show ?thesis using Some d by simp
  qed
qed

lemma sort_key_complete_ids:
  assumes d: "distinct (map fst sp)" and s: "fst ` set sp = int ` {0..<K}"
  shows "map fst (sort_key fst sp) = map int [0..<K]"
proof (rule sorted_distinct_set_unique)
  show "sorted (map fst (sort_key fst sp))"
    by (rule sorted_sort_key)
  show "distinct (map fst (sort_key fst sp))"
    using d by (metis distinct_map distinct_sort set_sort)
  show "sorted (map int [0..<K])"
    by (simp add: sorted_map sorted_wrt_iff_nth_less)
  show "distinct (map int [0..<K])"
    by (simp add: distinct_map inj_on_def)
  show "set (map fst (sort_key fst sp)) = set (map int [0..<K])"
    using s by simp
qed

lemma sorted_complete_densify:
  assumes d: "distinct (map fst sp)" and s: "fst ` set sp = int ` {0..<K}"
  shows "map snd (sort_key fst sp) = densify_spec sp K"
proof -
  let ?srt = "sort_key fst sp"
  have ds: "distinct (map fst ?srt)"
    using d by (metis distinct_map distinct_sort set_sort)
  have "map snd ?srt = map (\<lambda>k. the (map_of ?srt k)) (map fst ?srt)"
    by (rule alist_values [OF ds])
  also have "\<dots> = map (\<lambda>k. the (map_of sp k)) (map int [0..<K])"
    by (simp only: map_of_sort_key [OF d] sort_key_complete_ids [OF d s])
  also have "\<dots> = densify_spec sp K"
  proof -
    have "\<And>i. i < K \<Longrightarrow> \<exists>p. map_of sp (int i) = Some p"
    proof -
      fix i assume "i < K"
      then have "int i \<in> fst ` set sp" using s by auto
      then show "\<exists>p. map_of sp (int i) = Some p"
        by (metis map_of_eq_None_iff not_Some_eq)
    qed
    then have "\<And>i. i < K \<Longrightarrow>
        the (map_of sp (int i)) = (case map_of sp (int i) of None \<Rightarrow> 0 | Some p \<Rightarrow> p)"
      by fastforce
    then show ?thesis
      by (simp add: densify_spec_def)
  qed
  finally show ?thesis .
qed

lemma densify_spec_length: "length (densify_spec sp K) = K"
  by (simp add: densify_spec_def)

lemma int_keys_items:
  "int_keys t = Inr sp \<Longrightarrow>
   list_all2 (\<lambda>x y. py_int (fst x) = Inr (fst y) \<and> snd y = snd x) t sp"
  by (induction t arbitrary: sp) (auto split: sum.splits)

lemma sort_key_present_ids:
  assumes d: "distinct (map fst sp)" and s: "fst ` set sp \<subseteq> int ` {0..<K}"
  shows "map fst (sort_key fst sp) = map int (filter (\<lambda>i. int i \<in> fst ` set sp) [0..<K])"
proof (rule sorted_distinct_set_unique)
  show "sorted (map fst (sort_key fst sp))"
    by (rule sorted_sort_key)
  show "distinct (map fst (sort_key fst sp))"
    using d by (metis distinct_map distinct_sort set_sort)
  show "sorted (map int (filter (\<lambda>i. int i \<in> fst ` set sp) [0..<K]))"
    by (simp add: sorted_map sorted_wrt_filter)
  show "distinct (map int (filter (\<lambda>i. int i \<in> fst ` set sp) [0..<K]))"
    by (simp add: distinct_map inj_on_def)
  show "set (map fst (sort_key fst sp)) = set (map int (filter (\<lambda>i. int i \<in> fst ` set sp) [0..<K]))"
  proof
    show "set (map fst (sort_key fst sp))
        \<subseteq> set (map int (filter (\<lambda>i. int i \<in> fst ` set sp) [0..<K]))"
    proof
      fix a assume "a \<in> set (map fst (sort_key fst sp))"
      then have a: "a \<in> fst ` set sp" by simp
      then obtain i where i: "i < K" "a = int i"
        using s by auto
      then have "i \<in> set (filter (\<lambda>i. int i \<in> fst ` set sp) [0..<K])"
        using a by simp
      then show "a \<in> set (map int (filter (\<lambda>i. int i \<in> fst ` set sp) [0..<K]))"
        using i(2) by (metis image_eqI set_map)
    qed
    show "set (map int (filter (\<lambda>i. int i \<in> fst ` set sp) [0..<K]))
        \<subseteq> set (map fst (sort_key fst sp))"
      by auto
  qed
qed

lemma densify_spec_nth:
  "i < K \<Longrightarrow> densify_spec sp K ! i = (case map_of sp (int i) of None \<Rightarrow> 0 | Some p \<Rightarrow> p)"
  by (simp add: densify_spec_def)

lemma sorted_present_densify:
  assumes d: "distinct (map fst sp)" and s: "fst ` set sp \<subseteq> int ` {0..<K}"
  shows "map snd (sort_key fst sp) =
     map (\<lambda>i. densify_spec sp K ! i) (filter (\<lambda>i. int i \<in> fst ` set sp) [0..<K])"
proof -
  let ?srt = "sort_key fst sp"
  let ?present = "filter (\<lambda>i. int i \<in> fst ` set sp) [0..<K]"
  have ds: "distinct (map fst ?srt)"
    using d by (metis distinct_map distinct_sort set_sort)
  have "map snd ?srt = map (\<lambda>k. the (map_of ?srt k)) (map fst ?srt)"
    by (rule alist_values [OF ds])
  also have "\<dots> = map (\<lambda>k. the (map_of sp k)) (map int ?present)"
    by (simp only: map_of_sort_key [OF d] sort_key_present_ids [OF d s])
  also have "\<dots> = map (\<lambda>i. the (map_of sp (int i))) ?present"
    by (simp add: comp_def)
  also have "\<dots> = map (\<lambda>i. densify_spec sp K ! i) ?present"
  proof (rule map_cong [OF refl])
    fix i assume "i \<in> set ?present"
    then have i: "i < K" and m: "int i \<in> fst ` set sp"
      by auto
    obtain p where "map_of sp (int i) = Some p"
      using m by (metis map_of_eq_None_iff not_Some_eq)
    then show "the (map_of sp (int i)) = densify_spec sp K ! i"
      using i by (simp add: densify_spec_nth)
  qed
  finally show ?thesis .
qed

text \<open>
  C1 (amended). The ordered list of a distribution whose keys are integer literals
  holds the stored probabilities, one per stored entry, arranged by ascending id
  (entries of one id keep their iteration order): absent ids are not zero-filled.
  For distinct ids inside \<open>[0, K)\<close> the list is the dense vector with the positions
  of the absent ids left out; when the ids stored are exactly \<open>0, ..., K - 1\<close>, it
  is the dense vector of length \<open>K\<close> whose entry \<open>i\<close> is the probability stored
  for id \<open>i\<close>.
\<close>

theorem sorted_topics_dense:
  assumes "int_keys t = Inr sparse"
  shows "list_all2 (\<lambda>x y. py_int (fst x) = Inr (fst y) \<and> snd y = snd x) t sparse \<and>
     (\<exists>srt. sorted_topics t = Inr (map snd srt) \<and>
        mset srt = mset sparse \<and> sorted (map fst srt) \<and>
        (\<forall>k. filter (\<lambda>e. fst e = k) srt = filter (\<lambda>e. fst e = k) sparse) \<and>
        length (map snd srt) = length t \<and>
        (distinct (map fst sparse) \<and> fst ` set sparse \<subseteq> int ` {0..<K}
           \<longrightarrow> map snd srt =
                 map (\<lambda>i. densify_spec sparse K ! i)
                   (filter (\<lambda>i. int i \<in> fst ` set sparse) [0..<K])) \<and>
        (distinct (map fst sparse) \<and> fst ` set sparse = int ` {0..<K}
           \<longrightarrow> map snd srt = densify_spec sparse K \<and> length (map snd srt) = K))"
proof
  show "list_all2 (\<lambda>x y. py_int (fst x) = Inr (fst y) \<and> snd y = snd x) t sparse"
    using assms by (rule int_keys_items)
next
  let ?srt = "sort_key fst sparse"
  have 1: "sorted_topics t = Inr (map snd ?srt)"
    using assms by (rule sorted_topics_Inr)
  have 2: "mset ?srt = mset sparse"
    by simp
  have 3: "sorted (map fst ?srt)"
    by (rule sorted_sort_key)
  have 4: "\<forall>k. filter (\<lambda>e. fst e = k) ?srt = filter (\<lambda>e. fst e = k) sparse"
    by (simp add: sort_key_stable)
  have 5: "length (map snd ?srt) = length t"
    using int_keys_length [OF assms] by simp
  have 6: "distinct (map fst sparse) \<and> fst ` set sparse \<subseteq> int ` {0..<K}
           \<longrightarrow> map snd ?srt =
                 map (\<lambda>i. densify_spec sparse K ! i)
                   (filter (\<lambda>i. int i \<in> fst ` set sparse) [0..<K])"
    using sorted_present_densify [of sparse K] by blast
  have 7: "distinct (map fst sparse) \<and> fst ` set sparse = int ` {0..<K}
           \<longrightarrow> map snd ?srt = densify_spec sparse K \<and> length (map snd ?srt) = K"
    using sorted_complete_densify [of sparse K] densify_spec_length [of sparse K] by metis
  show "\<exists>srt. sorted_topics t = Inr (map snd srt) \<and>
        mset srt = mset sparse \<and> sorted (map fst srt) \<and>
        (\<forall>k. filter (\<lambda>e. fst e = k) srt = filter (\<lambda>e. fst e = k) sparse) \<and>
        length (map snd srt) = length t \<and>
        (distinct (map fst sparse) \<and> fst ` set sparse \<subseteq> int ` {0..<K}
           \<longrightarrow> map snd srt =
                 map (\<lambda>i. densify_spec sparse K ! i)
                   (filter (\<lambda>i. int i \<in> fst ` set sparse) [0..<K])) \<and>
        (distinct (map fst sparse) \<and> fst ` set sparse = int ` {0..<K}
           \<longrightarrow> map snd srt = densify_spec sparse K \<and> length (map snd srt) = K)"
    using 1 2 3 4 5 6 7 by (intro exI [of _ ?srt] conjI)
qed

text \<open>The two-topic distribution \<open>{'1': 1/2, '0': 1/4}\<close> with \<open>K = 2\<close>.\<close>

theorem sorted_topics_dense_witness:
  "int_keys [(''1'', 1/2), (''0'', 1/4)] = Inr [(1, 1/2), (0, 1/4)] \<and>
   distinct (map fst [(1::int, 1/2::rat), (0, 1/4)]) \<and>
   fst ` set [(1::int, 1/2::rat), (0, 1/4)] = int ` {0..<2} \<and>
   fst ` set [(1::int, 1/2::rat), (0, 1/4)] \<subseteq> int ` {0..<2} \<and>
   sorted_topics [(''1'', 1/2), (''0'', 1/4)] = Inr (densify_spec [(1, 1/2), (0, 1/4)] 2) \<and>
   sorted_topics [(''1'', 1/2), (''0'', 1/4)]
     = Inr (map (\<lambda>i. densify_spec [(1, 1/2), (0, 1/4)] 2 ! i)
              (filter (\<lambda>i. int i \<in> fst ` set [(1::int, 1/2::rat), (0, 1/4)]) [0..<2])) \<and>
   densify_spec [(1, 1/2), (0, 1/4)] 2 = [1/4, 1/2]"
proof -
  let ?sp = "[(1::int, 1/2::rat), (0, 1/4)]"
  have k: "int_keys [(''1'', 1/2), (''0'', 1/4)] = Inr ?sp"
    by (simp add: py_int_def Let_def is_space_def is_digit_def dec_val_def digit_val_def)
  have d: "distinct (map fst ?sp)"
    by simp
  have s: "fst ` set ?sp = int ` {0..<2}"
    by (auto simp: image_def atLeastLessThan_def numeral_2_eq_2 less_Suc_eq)
  have s': "fst ` set ?sp \<subseteq> int ` {0..<2}"
    unfolding s ..
  have e: "densify_spec ?sp 2 = [1/4, 1/2]"
    by (simp add: densify_spec_def numeral_2_eq_2)
  from sorted_topics_dense [OF k, of 2] obtain srt :: "(int \<times> rat) list" where
    v: "sorted_topics [(''1'', 1/2), (''0'', 1/4)] = Inr (map snd srt)" and
    p: "distinct (map fst ?sp) \<and> fst ` set ?sp \<subseteq> int ` {0..<2}
        \<longrightarrow> map snd srt =
              map (\<lambda>i. densify_spec ?sp 2 ! i) (filter (\<lambda>i. int i \<in> fst ` set ?sp) [0..<2])" and
    c: "distinct (map fst ?sp) \<and> fst ` set ?sp = int ` {0..<2}
        \<longrightarrow> map snd srt = densify_spec ?sp 2 \<and> length (map snd srt) = 2"
    by blast
  from c d s have c': "map snd srt = densify_spec ?sp 2"
    by blast
  from p d s' have p': "map snd srt =
      map (\<lambda>i. densify_spec ?sp 2 ! i) (filter (\<lambda>i. int i \<in> fst ` set ?sp) [0..<2])"
    by blast
  have v1: "sorted_topics [(''1'', 1/2), (''0'', 1/4)] = Inr (densify_spec ?sp 2)"
    using v unfolding c' .
  have v2: "sorted_topics [(''1'', 1/2), (''0'', 1/4)]
      = Inr (map (\<lambda>i. densify_spec ?sp 2 ! i) (filter (\<lambda>i. int i \<in> fst ` set ?sp) [0..<2]))"
    using v unfolding p' .
  show ?thesis
    by (intro conjI k d s s' v1 v2 e)
qed

text \<open>
  C1 as stated fails: with \<open>K = 2\<close> the distribution \<open>{'1': 1/2}\<close> gives the list
  \<open>[1/2]\<close> of length one, not \<open>[0, 1/2]\<close>.
\<close>

theorem densify_zero_fill_counterexample:
  "int_keys [(''1'', 1/2)] = Inr [(1, 1/2)] \<and>
   sorted_topics [(''1'', 1/2)] = Inr [1/2] \<and>
   densify_spec [(1, 1/2)] 2 = [0, 1/2] \<and>
   sorted_topics [(''1'', 1/2)] \<noteq> Inr (densify_spec [(1, 1/2)] 2)"
  by (simp add: sorted_topics_def py_int_def Let_def is_space_def is_digit_def dec_val_def
      digit_val_def densify_spec_def numeral_2_eq_2)

section \<open>Ids are not checked against the number of topics\<close>

lemma int_keys_Inl_iff:
  "int_keys t = Inl e \<longleftrightarrow> e = ValueError \<and> (\<exists>x \<in> set t. py_int (fst x) = Inl ValueError)"
proof (induction t)
  case Nil
  show ?case by simp
next
  case (Cons x t)
  show ?case
  proof (cases "py_int (fst x)")
    case (Inl e')
    then have "e' = ValueError" by (rule py_int_error)
    with Inl show ?thesis by auto
  next
    case (Inr i)
    then show ?thesis using Cons by (auto split: sum.splits)
  qed
qed

lemma sorted_topics_Inl_iff:
  "sorted_topics t = Inl e \<longleftrightarrow> e = ValueError \<and> (\<exists>x \<in> set t. py_int (fst x) = Inl ValueError)"
  using int_keys_Inl_iff [of t e] by (auto simp: sorted_topics_def split: sum.splits)

text \<open>
  C4 (amended). A distribution whose keys are integer literals is processed without
  any failure also when it holds an id outside \<open>[0, K)\<close>: the ordered list is returned
  and holds every stored probability, that of the id out of range included. The only
  failure of the step is the \<^verbatim>\<open>ValueError\<close> of a key that is not an integer literal.
\<close>

theorem invalid_topic_id_not_checked:
  "(int_keys t = Inr sparse \<and> (i, p) \<in> set sparse \<and> (i < 0 \<or> int K \<le> i)
      \<longrightarrow> (\<exists>v. sorted_topics t = Inr v \<and> p \<in> set v \<and> mset v = mset (map snd t)))
   \<and> (sorted_topics t = Inl e
      \<longrightarrow> e = ValueError \<and> (\<exists>x \<in> set t. py_int (fst x) = Inl ValueError))"
proof (intro conjI impI)
  assume a: "int_keys t = Inr sparse \<and> (i, p) \<in> set sparse \<and> (i < 0 \<or> int K \<le> i)"
  then have v: "sorted_topics t = Inr (map snd (sort_key fst sparse))"
    by (simp add: sorted_topics_Inr)
  have "p \<in> snd ` set sparse"
    using a by force
  then have "p \<in> set (map snd (sort_key fst sparse))"
    by simp
  then show "\<exists>v. sorted_topics t = Inr v \<and> p \<in> set v \<and> mset v = mset (map snd t)"
    using v sorted_topics_mset [OF v] by blast
next
  assume "sorted_topics t = Inl e"
  then show "e = ValueError" and "\<exists>x \<in> set t. py_int (fst x) = Inl ValueError"
    by (simp_all add: sorted_topics_Inl_iff)
qed

lemma py_int_0: "py_int ''0'' = Inr 0"
  by (simp add: py_int_def Let_def is_space_def is_digit_def dec_val_def digit_val_def)

lemma py_int_1: "py_int ''1'' = Inr 1"
  by (simp add: py_int_def Let_def is_space_def is_digit_def dec_val_def digit_val_def)

lemma py_int_2: "py_int ''2'' = Inr 2"
  by (simp add: py_int_def Let_def is_space_def is_digit_def dec_val_def digit_val_def)

lemma py_int_5: "py_int ''5'' = Inr 5"
  by (simp add: py_int_def Let_def is_space_def is_digit_def dec_val_def digit_val_def)

text \<open>Id \<open>5\<close> with \<open>K = 3\<close>.\<close>

theorem invalid_topic_id_not_checked_witness:
  "int_keys [(''0'', 7/10), (''5'', 3/10)] = Inr [(0, 7/10), (5, 3/10)] \<and>
   (5, 3/10) \<in> set [(0::int, 7/10::rat), (5, 3/10)] \<and> int 3 \<le> 5 \<and>
   (\<exists>v. sorted_topics [(''0'', 7/10), (''5'', 3/10)] = Inr v \<and> 3/10 \<in> set v \<and>
        mset v = mset (map snd [(''0'', 7/10::rat), (''5'', 3/10)]))"
proof -
  have k: "int_keys [(''0'', 7/10), (''5'', 3/10)] = Inr [(0, 7/10), (5, 3/10)]"
    by (simp add: py_int_0 py_int_5)
  have m: "(5, 3/10) \<in> set [(0::int, 7/10::rat), (5, 3/10)]"
    by simp
  have r: "(5::int) < 0 \<or> int 3 \<le> 5"
    by simp
  from invalid_topic_id_not_checked [of "[(''0'', 7/10), (''5'', 3/10)]" "[(0, 7/10), (5, 3/10)]" 5 "3/10" 3]
  have "\<exists>v. sorted_topics [(''0'', 7/10), (''5'', 3/10)] = Inr v \<and> 3/10 \<in> set v \<and>
        mset v = mset (map snd [(''0'', 7/10::rat), (''5'', 3/10)])"
    using k m r by blast
  with k m show ?thesis by simp
qed

text \<open>
  C4 as stated fails: with \<open>K = 3\<close>, a document whose distribution is
  \<open>{'0': 7/10, '5': 3/10}\<close> raises nothing; its list \<open>[7/10, 3/10]\<close> enters the
  bucket of its year.
\<close>

theorem invalid_topic_id_counterexample:
  "sorted_topics [(''0'', 7/10), (''5'', 3/10)] = Inr [7/10, 3/10] \<and>
   get_year_to_topics
     [\<lparr>journal = ''J'', year = PInt 2000, title = ''T'', tokens = Absent,
       topics = Value [(''0'', 7/10), (''5'', 3/10)]\<rparr>]
     = Inr [(2000, [[7/10, 3/10]])]"
  by (simp add: get_year_to_topics_def py_int_val_def dict_contains_def dict_append_def
      topics_iteritems_def sorted_topics_def py_int_0 py_int_5)

section \<open>Dominant topic\<close>

lemma max_loop_mem: "max_loop f b xs \<in> set (b # xs)"
  by (induction xs arbitrary: b) (auto split: if_splits)

lemma max_loop_ge_best: "f b \<le> f (max_loop f b xs)"
proof (induction xs arbitrary: b)
  case Nil
  show ?case by simp
next
  case (Cons x xs)
  have "f b \<le> f (if f b < f x then x else b)"
    by simp
  also have "\<dots> \<le> f (max_loop f (if f b < f x then x else b) xs)"
    by (rule Cons.IH)
  finally show ?case by simp
qed

lemma max_loop_ge: "x \<in> set (b # xs) \<Longrightarrow> f x \<le> f (max_loop f b xs)"
proof (induction xs arbitrary: b)
  case Nil
  then show ?case by simp
next
  case (Cons y ys)
  let ?b = "if f b < f y then y else b"
  have m: "max_loop f b (y # ys) = max_loop f ?b ys"
    by simp
  consider "x = b" | "x = y" | "x \<in> set ys"
    using Cons.prems by auto
  then show ?case
  proof cases
    case 1
    then show ?thesis using max_loop_ge_best [of f b "y # ys"] by simp
  next
    case 2
    have "f y \<le> f ?b" by simp
    also have "\<dots> \<le> f (max_loop f ?b ys)" by (rule max_loop_ge_best)
    finally show ?thesis using 2 m by simp
  next
    case 3
    then have "f x \<le> f (max_loop f ?b ys)"
      using Cons.IH [of ?b] by simp
    then show ?thesis using m by simp
  qed
qed

lemma max_loop_first:
  "\<exists>pre post. b # xs = pre @ max_loop f b xs # post \<and> (\<forall>x \<in> set pre. f x < f (max_loop f b xs))"
proof (induction xs arbitrary: b)
  case Nil
  have "[b] = [] @ b # []" by simp
  then show ?case by fastforce
next
  case (Cons y ys)
  let ?b = "if f b < f y then y else b"
  let ?m = "max_loop f ?b ys"
  have m: "max_loop f b (y # ys) = ?m"
    by simp
  obtain pre post where p: "?b # ys = pre @ ?m # post" and l: "\<forall>x \<in> set pre. f x < f ?m"
    using Cons.IH [of ?b] by blast
  show ?case
  proof (cases "f b < f y")
    case True
    then have "b # y # ys = (b # pre) @ ?m # post"
      using p by simp
    moreover have "f b < f ?m"
      using True max_loop_ge_best [of f ?b ys] by simp
    ultimately show ?thesis
      using l m by (metis set_ConsD)
  next
    case False
    then have e: "?b = b" by simp
    have me: "max_loop f b (y # ys) = max_loop f b ys"
      using False by simp
    from p have p': "b # ys = pre @ max_loop f b ys # post"
      unfolding e .
    from l have l': "\<forall>x \<in> set pre. f x < f (max_loop f b ys)"
      unfolding e .
    show ?thesis
    proof (cases pre)
      case Nil
      with p' have "b # ys = max_loop f b ys # post"
        by (simp only: append_Nil)
      then have "max_loop f b ys = b"
        by (metis list.sel(1))
      then have "b # y # ys = [] @ max_loop f b (y # ys) # (y # ys)"
        using me by simp
      then show ?thesis by (metis empty_iff list.set(1))
    next
      case (Cons c pre')
      with p' have "b # ys = c # (pre' @ max_loop f b ys # post)"
        by (simp only: append_Cons)
      then have c: "c = b" and ys: "ys = pre' @ max_loop f b ys # post"
        by (metis list.sel(1), metis list.sel(3))
      have lb: "f b < f (max_loop f b ys)"
        using l' Cons c by simp
      then have ly: "f y < f (max_loop f b ys)"
        using False by simp
      have "b # y # ys = (b # y # pre') @ max_loop f b ys # post"
        using ys by simp
      moreover have "\<forall>x \<in> set (b # y # pre'). f x < f (max_loop f b ys)"
        using l' Cons lb ly by simp
      ultimately show ?thesis
        unfolding me by blast
    qed
  qed
qed

lemma py_max_first:
  assumes "xs \<noteq> []"
  shows "\<exists>m pre post. py_max f xs = Inr m \<and> xs = pre @ m # post \<and>
           (\<forall>x \<in> set pre. f x < f m) \<and> (\<forall>x \<in> set xs. f x \<le> f m)"
proof -
  obtain b rest where xs: "xs = b # rest"
    using assms by (cases xs) auto
  obtain pre post where "b # rest = pre @ max_loop f b rest # post"
      and "\<forall>x \<in> set pre. f x < f (max_loop f b rest)"
    using max_loop_first [of b rest f] by blast
  moreover have "\<forall>x \<in> set (b # rest). f x \<le> f (max_loop f b rest)"
    using max_loop_ge [of _ b rest f] by blast
  moreover have "py_max f xs = Inr (max_loop f b rest)"
    by (simp add: py_max_def xs)
  ultimately show ?thesis
    unfolding xs by blast
qed

lemma py_max_empty: "py_max f [] = Inl ValueError"
  by (simp add: py_max_def)

lemma list_index_first:
  "x \<in> set xs \<Longrightarrow> \<exists>i. list_index xs x = Inr i \<and> i < length xs \<and> xs ! i = x \<and> (\<forall>j < i. xs ! j \<noteq> x)"
proof (induction xs)
  case Nil
  then show ?case by simp
next
  case (Cons y ys)
  show ?case
  proof (cases "y = x")
    case True
    then show ?thesis by simp
  next
    case False
    then obtain i where i: "list_index ys x = Inr i" "i < length ys" "ys ! i = x" "\<forall>j < i. ys ! j \<noteq> x"
      using Cons by auto
    have "\<forall>j < Suc i. (y # ys) ! j \<noteq> x"
      using False i(4) by (auto simp: nth_Cons split: nat.splits)
    then show ?thesis
      using False i by auto
  qed
qed


text \<open>
  C2 (amended). For every non-empty distribution, the titles path returns the first
  pair, in the iteration order of the mapping, that carries the maximum probability
  (its id need not be the smallest among tied ids). The co-occurrence path returns
  the first position of the maximum in the list ordered by ascending id: the entry
  at that position has the smallest id among the entries with the maximum
  probability.
\<close>

theorem dominant_topic_selection:
  assumes "items \<noteq> []"
  shows "(\<exists>k p pre post. py_max snd items = Inr (k, p) \<and> items = pre @ (k, p) # post \<and>
            (\<forall>e \<in> set pre. snd e < p) \<and> (\<forall>e \<in> set items. snd e \<le> p))
       \<and> (int_keys items = Inr sparse \<longrightarrow>
            (\<exists>ts mx i. sorted_topics items = Inr ts \<and> py_max (\<lambda>x. x) ts = Inr mx \<and>
               list_index ts mx = Inr i \<and> i < length ts \<and>
               snd (sort_key fst sparse ! i) = mx \<and>
               (\<forall>e \<in> set sparse. snd e \<le> mx) \<and>
               (\<forall>e \<in> set sparse. snd e = mx \<longrightarrow> fst (sort_key fst sparse ! i) \<le> fst e)))"
proof (intro conjI impI)
  obtain m pre post where m: "py_max snd items = Inr m" "items = pre @ m # post"
      "\<forall>x \<in> set pre. snd x < snd m" "\<forall>x \<in> set items. snd x \<le> snd m"
    using py_max_first [OF assms, of snd] by blast
  then have "py_max snd items = Inr (fst m, snd m) \<and> items = pre @ (fst m, snd m) # post \<and>
      (\<forall>e \<in> set pre. snd e < snd m) \<and> (\<forall>e \<in> set items. snd e \<le> snd m)"
    by simp
  then show "\<exists>k p pre post. py_max snd items = Inr (k, p) \<and> items = pre @ (k, p) # post \<and>
            (\<forall>e \<in> set pre. snd e < p) \<and> (\<forall>e \<in> set items. snd e \<le> p)"
    by blast
next
  assume k: "int_keys items = Inr sparse"
  let ?srt = "sort_key fst sparse"
  let ?ts = "map snd ?srt"
  have st: "sorted_topics items = Inr ?ts"
    using k by (rule sorted_topics_Inr)
  have len: "length ?ts = length items"
    using int_keys_length [OF k] by simp
  then have ne: "?ts \<noteq> []"
    using assms by (metis length_0_conv)
  obtain mx pre post where mx: "py_max (\<lambda>x. x) ?ts = Inr mx" "?ts = pre @ mx # post"
      "\<forall>x \<in> set ?ts. x \<le> mx"
    using py_max_first [OF ne, of "\<lambda>x. x"] by blast
  have "mx \<in> set ?ts"
    by (subst mx(2)) simp
  then obtain i where i: "list_index ?ts mx = Inr i" "i < length ?ts" "?ts ! i = mx"
      "\<forall>j < i. ?ts ! j \<noteq> mx"
    using list_index_first [of mx ?ts] by blast
  have il: "i < length ?srt"
    using i(2) by simp
  have si: "snd (?srt ! i) = mx"
    using i(3) il by simp
  have le: "\<forall>e \<in> set sparse. snd e \<le> mx"
  proof
    fix e assume "e \<in> set sparse"
    then have "snd e \<in> set ?ts" by force
    then show "snd e \<le> mx" using mx(3) by blast
  qed
  have low: "\<forall>e \<in> set sparse. snd e = mx \<longrightarrow> fst (?srt ! i) \<le> fst e"
  proof (intro ballI impI)
    fix e assume e: "e \<in> set sparse" and v: "snd e = mx"
    then have "e \<in> set ?srt" by simp
    then obtain j where j: "j < length ?srt" "?srt ! j = e"
      by (meson in_set_conv_nth)
    have "?ts ! j = mx"
      using j v by simp
    then have "\<not> j < i"
      using i(4) by blast
    then have "i \<le> j"
      by simp
    moreover have "sorted (map fst ?srt)"
      by (rule sorted_sort_key)
    ultimately have "map fst ?srt ! i \<le> map fst ?srt ! j"
      using j(1) by (simp add: sorted_iff_nth_mono)
    then show "fst (?srt ! i) \<le> fst e"
      using j il by simp
  qed
  show "\<exists>ts mx i. sorted_topics items = Inr ts \<and> py_max (\<lambda>x. x) ts = Inr mx \<and>
               list_index ts mx = Inr i \<and> i < length ts \<and>
               snd (sort_key fst sparse ! i) = mx \<and>
               (\<forall>e \<in> set sparse. snd e \<le> mx) \<and>
               (\<forall>e \<in> set sparse. snd e = mx \<longrightarrow> fst (sort_key fst sparse ! i) \<le> fst e)"
    using st mx(1) i(1) i(2) si le low by blast
qed

text \<open>The distribution \<open>{'2': 1/2, '0': 1/2, '1': 1/10}\<close>, iterated in this order.\<close>

theorem dominant_topic_selection_witness:
  "[(''2'', 1/2::rat), (''0'', 1/2), (''1'', 1/10)] \<noteq> [] \<and>
   int_keys [(''2'', 1/2), (''0'', 1/2), (''1'', 1/10)] = Inr [(2, 1/2), (0, 1/2), (1, 1/10)] \<and>
   (\<exists>k p pre post. py_max snd [(''2'', 1/2::rat), (''0'', 1/2), (''1'', 1/10)] = Inr (k, p) \<and>
      [(''2'', 1/2::rat), (''0'', 1/2), (''1'', 1/10)] = pre @ (k, p) # post \<and>
      (\<forall>e \<in> set pre. snd e < p)) \<and>
   (\<exists>ts mx i. sorted_topics [(''2'', 1/2), (''0'', 1/2), (''1'', 1/10)] = Inr ts \<and>
      py_max (\<lambda>x. x) ts = Inr mx \<and> list_index ts mx = Inr i \<and> i < length ts)"
proof -
  have h: "[(''2'', 1/2::rat), (''0'', 1/2), (''1'', 1/10)] \<noteq> []"
    by simp
  have k: "int_keys [(''2'', 1/2), (''0'', 1/2), (''1'', 1/10)] = Inr [(2, 1/2), (0, 1/2), (1, 1/10)]"
    by (simp add: py_int_0 py_int_1 py_int_2)
  show ?thesis
    using dominant_topic_selection [OF h, of "[(2, 1/2), (0, 1/2), (1, 1/10)]"] h k
    by blast
qed

text \<open>
  C2 as stated fails in the titles path: when the mapping \<open>{'0': 1/2, '1': 1/2}\<close> is
  iterated with key \<open>'1'\<close> first, the tie goes to \<open>'1'\<close>, not to the smallest id.
\<close>

theorem dominant_tie_counterexample:
  "py_max snd [(''1'', 1/2), (''0'', 1/2)] = Inr (''1'', 1/2) \<and>
   get_document_title_per_topic
     [\<lparr>journal = ''J'', year = PInt 2000, title = ''T'', tokens = Absent,
       topics = Value [(''1'', 1/2), (''0'', 1/2)]\<rparr>]
     = Inr [(PInt 2000, ''T'', ''J'', ''1'', 1/2)]"
  by (simp add: get_document_title_per_topic_def topics_iteritems_def py_max_def)

section \<open>Empty and missing distributions\<close>

lemma titles_loop_append:
  "titles_loop (pre @ D) acc =
     (case titles_loop pre acc of Inl e \<Rightarrow> Inl e | Inr r \<Rightarrow> titles_loop D r)"
  by (induction pre arbitrary: acc) (auto split: sum.splits)

lemma titles_loop_empty_head: "topics d = Value [] \<Longrightarrow> titles_loop (d # post) acc = Inl ValueError"
  by (simp add: topics_iteritems_def py_max_def)

lemma titles_loop_empty_mem:
  "d \<in> set D \<Longrightarrow> topics d = Value [] \<Longrightarrow> \<exists>e. titles_loop D acc = Inl e"
proof (induction D arbitrary: acc)
  case Nil
  then show ?case by simp
next
  case (Cons x D)
  show ?case
  proof (cases "x = d")
    case True
    then show ?thesis using Cons.prems(2) titles_loop_empty_head by blast
  next
    case False
    then have "d \<in> set D" using Cons.prems(1) by simp
    then have "\<And>acc. \<exists>e. titles_loop D acc = Inl e"
      using Cons.IH Cons.prems(2) by blast
    then show ?thesis
      by (auto split: sum.splits)
  qed
qed

lemma dominant_loop_append:
  "dominant_loop (pre @ D) acc =
     (case dominant_loop pre acc of Inl e \<Rightarrow> Inl e | Inr r \<Rightarrow> dominant_loop D r)"
  by (induction pre arbitrary: acc) (auto simp: Let_def split: sum.splits)

lemma sorted_topics_empty: "sorted_topics [] = Inr []"
  by (simp add: sorted_topics_def)

lemma dominant_loop_empty_head:
  "topics d = Value [] \<Longrightarrow> dominant_loop (d # post) acc = Inl ValueError"
  by (simp add: topics_iteritems_def sorted_topics_empty py_max_def)

lemma dominant_loop_empty_mem:
  "d \<in> set D \<Longrightarrow> topics d = Value [] \<Longrightarrow> \<exists>e. dominant_loop D acc = Inl e"
proof (induction D arbitrary: acc)
  case Nil
  then show ?case by simp
next
  case (Cons x D)
  show ?case
  proof (cases "x = d")
    case True
    then show ?thesis using Cons.prems(2) dominant_loop_empty_head by blast
  next
    case False
    then have "d \<in> set D" using Cons.prems(1) by simp
    then have "\<And>acc. \<exists>e. dominant_loop D acc = Inl e"
      using Cons.IH Cons.prems(2) by blast
    then show ?thesis
      by (auto simp: Let_def split: sum.splits)
  qed
qed

text \<open>
  C5. Selecting the dominant topic of a distribution without entries raises
  (\<^verbatim>\<open>ValueError\<close>, from \<^verbatim>\<open>max\<close> of an empty sequence): a pass that reaches such a
  document stops with that error, and no pass over a list holding such a document
  returns a result. This holds for the titles table and for the co-occurrence
  grouping.
\<close>

theorem empty_distribution_fails:
  assumes "topics d = Value []"
  shows "(get_document_title_per_topic pre = Inr rows
            \<longrightarrow> get_document_title_per_topic (pre @ d # post) = Inl ValueError)
       \<and> (d \<in> set D \<longrightarrow> (\<exists>e. get_document_title_per_topic D = Inl e))
       \<and> (plot_topic_co_occurrence_buckets pre = Inr b
            \<longrightarrow> plot_topic_co_occurrence_buckets (pre @ d # post) = Inl ValueError)
       \<and> (d \<in> set D \<longrightarrow> (\<exists>e. plot_topic_co_occurrence_buckets D = Inl e))"
proof (intro conjI impI)
  assume "get_document_title_per_topic pre = Inr rows"
  then have "titles_loop (pre @ d # post) [] = titles_loop (d # post) rows"
    by (simp only: titles_loop_append get_document_title_per_topic_def sum.case)
  then show "get_document_title_per_topic (pre @ d # post) = Inl ValueError"
    by (simp only: get_document_title_per_topic_def titles_loop_empty_head [OF assms])
next
  assume "d \<in> set D"
  then show "\<exists>e. get_document_title_per_topic D = Inl e"
    unfolding get_document_title_per_topic_def using assms by (rule titles_loop_empty_mem)
next
  assume "plot_topic_co_occurrence_buckets pre = Inr b"
  then have "dominant_loop (pre @ d # post) [] = dominant_loop (d # post) b"
    by (simp only: dominant_loop_append plot_topic_co_occurrence_buckets_def sum.case)
  then show "plot_topic_co_occurrence_buckets (pre @ d # post) = Inl ValueError"
    by (simp only: plot_topic_co_occurrence_buckets_def dominant_loop_empty_head [OF assms])
next
  assume "d \<in> set D"
  then show "\<exists>e. plot_topic_co_occurrence_buckets D = Inl e"
    unfolding plot_topic_co_occurrence_buckets_def using assms by (rule dominant_loop_empty_mem)
qed

theorem empty_distribution_fails_witness:
  "topics \<lparr>journal = ''J'', year = PInt 2000, title = ''T'', tokens = Absent, topics = Value []\<rparr>
     = Value [] \<and>
   get_document_title_per_topic [] = Inr [] \<and>
   get_document_title_per_topic
     [\<lparr>journal = ''J'', year = PInt 2000, title = ''T'', tokens = Absent, topics = Value []\<rparr>]
     = Inl ValueError \<and>
   plot_topic_co_occurrence_buckets [] = Inr [] \<and>
   plot_topic_co_occurrence_buckets
     [\<lparr>journal = ''J'', year = PInt 2000, title = ''T'', tokens = Absent, topics = Value []\<rparr>]
     = Inl ValueError"
proof -
  let ?d = "\<lparr>journal = ''J'', year = PInt 2000, title = ''T'', tokens = Absent,
             topics = Value ([] :: (string \<times> rat) list)\<rparr>"
  have h: "topics ?d = Value []"
    by simp
  have t: "get_document_title_per_topic [] = Inr []"
    by (simp add: get_document_title_per_topic_def)
  have c: "plot_topic_co_occurrence_buckets [] = Inr []"
    by (simp add: plot_topic_co_occurrence_buckets_def)
  from empty_distribution_fails [OF h, of "[]" "[]" "[]" "[?d]" "[]"] t c
  have "get_document_title_per_topic ([] @ [?d]) = Inl ValueError"
    and "plot_topic_co_occurrence_buckets ([] @ [?d]) = Inl ValueError"
    by blast+
  then show ?thesis
    using h t c by simp
qed

text \<open>
  C3. A document without the \<open>topics\<close> key is left out by the journal grouping, which
  goes on with the next document, but the year grouping and the co-occurrence grouping
  read \<^verbatim>\<open>d['topics']\<close> unguarded and stop with \<^verbatim>\<open>KeyError\<close>.
\<close>

theorem missing_topics_paths:
  "plot_topics_in_journals_buckets
     [\<lparr>journal = ''J'', year = PInt 2000, title = ''T'', tokens = Absent, topics = Absent\<rparr>,
      \<lparr>journal = ''J'', year = PInt 2000, title = ''U'', tokens = Absent, topics = Value [(''0'', 1)]\<rparr>]
     = Inr [(''J'', [[1]])] \<and>
   get_year_to_topics
     [\<lparr>journal = ''J'', year = PInt 2000, title = ''T'', tokens = Absent, topics = Absent\<rparr>,
      \<lparr>journal = ''J'', year = PInt 2000, title = ''U'', tokens = Absent, topics = Value [(''0'', 1)]\<rparr>]
     = Inl KeyError \<and>
   plot_topic_co_occurrence_buckets
     [\<lparr>journal = ''J'', year = PInt 2000, title = ''T'', tokens = Absent, topics = Absent\<rparr>,
      \<lparr>journal = ''J'', year = PInt 2000, title = ''U'', tokens = Absent, topics = Value [(''0'', 1)]\<rparr>]
     = Inl KeyError"
  by (simp add: plot_topics_in_journals_buckets_def get_year_to_topics_def
      plot_topic_co_occurrence_buckets_def py_int_val_def dict_contains_def dict_append_def
      topics_iteritems_def sorted_topics_def py_int_0)

section \<open>The grouping loops through their contributions\<close>

lemma year_loop_contributions:
  "year_loop D m =
     (case contributions year_entry D of
        Inl e \<Rightarrow> Inl e
      | Inr es \<Rightarrow> Inr (foldl (\<lambda>m kt. bucket_add (fst kt) (snd kt) m) m es))"
  by (induction D arbitrary: m)
     (auto simp: year_entry_def bucket_add_def Let_def split: sum.splits)

lemma journal_loop_contributions:
  "journal_loop D m =
     (case contributions journal_entry D of
        Inl e \<Rightarrow> Inl e
      | Inr es \<Rightarrow> Inr (foldl (\<lambda>m kt. bucket_add (fst kt) (snd kt) m) m es))"
  by (induction D arbitrary: m)
     (auto simp: journal_entry_def bucket_add_def Let_def split: sum.splits field.splits)

lemma dominant_loop_contributions:
  "dominant_loop D m =
     (case contributions dominant_entry D of
        Inl e \<Rightarrow> Inl e
      | Inr es \<Rightarrow> Inr (foldl (\<lambda>m kt. bucket_add (fst kt) (snd kt) m) m es))"
  by (induction D arbitrary: m)
     (auto simp: dominant_entry_def bucket_add_def Let_def split: sum.splits)

lemma cum_loop_reduce: "cum_loop m acc = reduce_loop (\<lambda>x. x) m acc"
  by (induction m arbitrary: acc) (auto split: sum.splits)

lemma dominant_cum_loop_reduce: "dominant_cum_loop m acc = reduce_loop times100 m acc"
  by (induction m arbitrary: acc) (auto split: sum.splits)


section \<open>Dictionaries as maps\<close>

lemma map_of_dict_set: "map_of (dict_set k v m) = (map_of m)(k \<mapsto> v)"
  by (induction m) (auto simp: fun_eq_iff)

lemma keys_dict_set: "fst ` set (dict_set k v m) = insert k (fst ` set m)"
  by (induction m) auto

lemma distinct_dict_set: "distinct (map fst m) \<Longrightarrow> distinct (map fst (dict_set k v m))"
proof (induction m)
  case Nil
  show ?case by simp
next
  case (Cons p m)
  have "fst p \<noteq> k \<Longrightarrow> fst p \<notin> fst ` set (dict_set k v m)"
    using Cons.prems by (simp add: keys_dict_set)
  then show ?case
    using Cons by auto
qed

lemma keys_dict_append: "map fst (dict_append k x m) = map fst m"
  by (induction m) (auto simp: dict_append_def)

lemma map_of_dict_append:
  "map_of (dict_append k x m) k' =
     (if k' = k then map_option (\<lambda>b. b @ [x]) (map_of m k) else map_of m k')"
  by (induction m) (auto simp: dict_append_def)

lemma dict_contains_map_of: "dict_contains k m \<longleftrightarrow> map_of m k \<noteq> None"
  by (simp add: dict_contains_def map_of_eq_None_iff)

lemma map_of_bucket_add:
  "map_of (bucket_add k ts m) k' =
     (if k' = k then Some ((case map_of m k of None \<Rightarrow> [] | Some b \<Rightarrow> b) @ [ts])
      else map_of m k')"
  by (cases "map_of m k")
     (auto simp: bucket_add_def map_of_dict_append map_of_dict_set dict_contains_map_of)

lemma distinct_bucket_add: "distinct (map fst m) \<Longrightarrow> distinct (map fst (bucket_add k ts m))"
  by (simp add: bucket_add_def keys_dict_append distinct_dict_set)

lemma distinct_foldl_bucket_add:
  "distinct (map fst m) \<Longrightarrow>
   distinct (map fst (foldl (\<lambda>m kt. bucket_add (fst kt) (snd kt) m) m es))"
  by (induction es arbitrary: m) (auto simp: distinct_bucket_add)

lemma map_of_foldl_bucket_add:
  "map_of (foldl (\<lambda>m kt. bucket_add (fst kt) (snd kt) m) m es) k =
     (if bucket_of k es = [] then map_of m k
      else Some ((case map_of m k of None \<Rightarrow> [] | Some b \<Rightarrow> b) @ bucket_of k es))"
proof (induction es arbitrary: m)
  case Nil
  show ?case by (simp add: bucket_of_def)
next
  case (Cons kt es)
  show ?case
  proof (cases "fst kt = k")
    case True
    then have b: "bucket_of k (kt # es) = snd kt # bucket_of k es"
      by (simp add: bucket_of_def)
    show ?thesis
      unfolding foldl_Cons Cons.IH b using True
      by (simp add: map_of_bucket_add)
  next
    case False
    then have b: "bucket_of k (kt # es) = bucket_of k es"
      by (simp add: bucket_of_def)
    show ?thesis
      unfolding foldl_Cons Cons.IH b using False
      by (simp add: map_of_bucket_add)
  qed
qed

section \<open>Permuting the documents\<close>

lemma contributions_total:
  "(\<forall>d \<in> set D. \<exists>c. entry d = Inr c) \<Longrightarrow>
   contributions entry D =
     Inr (concat (map (\<lambda>d. case entry d of Inr (Some kt) \<Rightarrow> [kt] | _ \<Rightarrow> []) D))"
  by (induction D) (auto split: sum.splits option.splits)

lemma contributions_entries:
  "contributions entry D = Inr es \<Longrightarrow> \<forall>d \<in> set D. \<exists>c. entry d = Inr c"
  by (induction D arbitrary: es) (auto split: sum.splits)

lemma contributions_Inr_iff:
  "contributions entry D = Inr es \<longleftrightarrow>
     (\<forall>d \<in> set D. \<exists>c. entry d = Inr c) \<and>
     es = concat (map (\<lambda>d. case entry d of Inr (Some kt) \<Rightarrow> [kt] | _ \<Rightarrow> []) D)"
  using contributions_total [of D entry] contributions_entries [of entry D es]
  by (metis sum.inject(2))

lemma mset_concat_map:
  "mset (concat (map f D)) = (\<Sum>d \<in># mset D. mset (f d))"
  by (induction D) auto

lemma contributions_permute:
  assumes "mset D' = mset D" and "contributions entry D = Inr es"
  shows "\<exists>es'. contributions entry D' = Inr es' \<and> mset es' = mset es"
proof -
  let ?f = "\<lambda>d. case entry d of Inr (Some kt) \<Rightarrow> [kt] | _ \<Rightarrow> []"
  have ok: "\<forall>d \<in> set D. \<exists>c. entry d = Inr c" and es: "es = concat (map ?f D)"
    using assms(2) by (simp_all add: contributions_Inr_iff)
  have "set D' = set D"
    using assms(1) by (rule mset_eq_setD)
  then have ok': "\<forall>d \<in> set D'. \<exists>c. entry d = Inr c"
    using ok by simp
  then have "contributions entry D' = Inr (concat (map ?f D'))"
    by (simp add: contributions_Inr_iff)
  moreover have "mset (concat (map ?f D')) = mset es"
    unfolding es mset_concat_map assms(1) ..
  ultimately show ?thesis by blast
qed

lemma bucket_of_permute: "mset es' = mset es \<Longrightarrow> mset (bucket_of k es') = mset (bucket_of k es)"
proof -
  assume a: "mset es' = mset es"
  have "\<And>xs. mset (bucket_of k xs) = image_mset snd (filter_mset (\<lambda>kt. fst kt = k) (mset xs))"
    by (simp add: bucket_of_def)
  then show ?thesis
    by (simp only: a)
qed

section \<open>Column means\<close>

lemma uniform_rows:
  "(\<forall>r' \<in> set rs. length r' = length r) =
   (\<forall>a \<in> set (r # rs). \<forall>b \<in> set (r # rs). length a = length b)"
proof
  assume h: "\<forall>r' \<in> set rs. length r' = length r"
  show "\<forall>a \<in> set (r # rs). \<forall>b \<in> set (r # rs). length a = length b"
  proof (intro ballI)
    fix a b assume "a \<in> set (r # rs)" and "b \<in> set (r # rs)"
    then have "length a = length r" and "length b = length r"
      using h by auto
    then show "length a = length b" by simp
  qed
next
  assume h: "\<forall>a \<in> set (r # rs). \<forall>b \<in> set (r # rs). length a = length b"
  show "\<forall>r' \<in> set rs. length r' = length r"
    using h by (meson list.set_intros)
qed

lemma np_mean_axis0_nonempty:
  assumes "v \<noteq> []"
  shows "np_mean_axis0 v =
     (if \<forall>a \<in> set v. \<forall>b \<in> set v. length a = length b
      then Inr (Arr (map (\<lambda>j. sum_list (map (\<lambda>row. row ! j) v) / of_nat (length v))
                       [0..<length (hd v)]))
      else Inl TypeError)"
proof -
  obtain r rs where v: "v = r # rs"
    using assms by (cases v) auto
  show ?thesis
    unfolding np_mean_axis0_def v by (simp only: list.case uniform_rows list.sel)
qed

lemma sum_list_map_permute:
  fixes f :: "'a \<Rightarrow> rat"
  assumes "mset xs = mset ys"
  shows "sum_list (map f xs) = sum_list (map f ys)"
proof -
  have "sum_list (map f xs) = sum_mset (image_mset f (mset xs))"
    by (metis mset_map sum_mset_sum_list)
  also have "\<dots> = sum_mset (image_mset f (mset ys))"
    by (simp only: assms)
  also have "\<dots> = sum_list (map f ys)"
    by (metis mset_map sum_mset_sum_list)
  finally show ?thesis .
qed

lemma np_mean_axis0_permute:
  assumes "mset v' = mset v"
  shows "np_mean_axis0 v' = np_mean_axis0 v"
proof (cases "v = []")
  case True
  then have "v' = []" using assms by simp
  then show ?thesis using True by simp
next
  case False
  then have ne: "v' \<noteq> []" using assms by auto
  have s: "set v' = set v"
    using assms by (rule mset_eq_setD)
  have l: "length v' = length v"
    using assms by (rule mset_eq_length)
  have sums: "\<And>j. sum_list (map (\<lambda>row. row ! j) v') = sum_list (map (\<lambda>row. row ! j) v)"
    using assms by (rule sum_list_map_permute)
  show ?thesis
  proof (cases "\<forall>a \<in> set v. \<forall>b \<in> set v. length a = length b")
    case True
    have "hd v \<in> set v"
      using False by simp
    moreover have "hd v' \<in> set v"
      using ne s by (metis hd_in_set)
    ultimately have h: "length (hd v') = length (hd v)"
      using True by blast
    show ?thesis
      unfolding np_mean_axis0_nonempty [OF False] np_mean_axis0_nonempty [OF ne] s l sums h ..
  next
    case False
    show ?thesis
      unfolding np_mean_axis0_nonempty [OF \<open>v \<noteq> []\<close>] np_mean_axis0_nonempty [OF ne] s
      using False by (simp only: if_False)
  qed
qed



section \<open>The reducing loop\<close>

lemma reduce_loop_total:
  "(\<forall>kv \<in> set m. \<exists>mu. np_mean_axis0 (snd kv) = Inr mu) \<Longrightarrow> \<exists>c. reduce_loop g m acc = Inr c"
  by (induction m arbitrary: acc) (auto split: sum.splits)

lemma reduce_loop_means:
  "reduce_loop g m acc = Inr c \<Longrightarrow> \<forall>kv \<in> set m. \<exists>mu. np_mean_axis0 (snd kv) = Inr mu"
  by (induction m arbitrary: acc) (auto split: sum.splits)



lemma reduce_loop_map_of:
  "reduce_loop g m acc = Inr c \<Longrightarrow> distinct (map fst m) \<Longrightarrow>
   map_of c k =
     (case map_of m k of
        None \<Rightarrow> map_of acc k
      | Some v \<Rightarrow> (case np_mean_axis0 v of Inl e \<Rightarrow> None | Inr mu \<Rightarrow> Some (g mu)))"
proof (induction m arbitrary: acc)
  case Nil
  then show ?case by simp
next
  case (Cons kv rest)
  obtain mu where mu: "np_mean_axis0 (snd kv) = Inr mu"
      and r: "reduce_loop g rest (dict_set (fst kv) (g mu) acc) = Inr c"
    using Cons.prems(1) by (auto split: sum.splits)
  have d: "distinct (map fst rest)" and n: "fst kv \<notin> fst ` set rest"
    using Cons.prems(2) by simp_all
  note ih = Cons.IH [OF r d]
  show ?case
  proof (cases "k = fst kv")
    case True
    then have "map_of rest k = None"
      using n by (simp add: map_of_eq_None_iff)
    then have "map_of c k = Some (g mu)"
      using ih True by (simp add: map_of_dict_set)
    moreover have "map_of (kv # rest) k = Some (snd kv)"
      using True by (cases kv) simp
    ultimately show ?thesis
      using mu by simp
  next
    case False
    then have "map_of (kv # rest) k = map_of rest k"
      by (cases kv) auto
    then show ?thesis
      using ih False by (simp add: map_of_dict_set split: option.splits)
  qed
qed

section \<open>Range of the cumulative distributions\<close>





section \<open>Order independence of grouping and reducing\<close>

lemma foldl_bucket_add_entries:
  assumes "m' = foldl (\<lambda>m kt. bucket_add (fst kt) (snd kt) m) [] es"
    and "kv \<in> set m'"
  shows "snd kv = bucket_of (fst kv) es \<and> bucket_of (fst kv) es \<noteq> []"
proof -
  have d: "distinct (map fst m')"
    unfolding assms(1) by (rule distinct_foldl_bucket_add) simp
  have "(fst kv, snd kv) \<in> set m'"
    using assms(2) by simp
  then have "map_of m' (fst kv) = Some (snd kv)"
    using d by (simp only: map_of_eq_Some_iff)
  then show ?thesis
    unfolding assms(1) map_of_foldl_bucket_add
    by (auto split: if_splits)
qed

lemma group_reduce_permute:
  assumes p: "mset D' = mset D"
    and es: "contributions entry D = Inr es"
    and c: "reduce_loop g (foldl (\<lambda>m kt. bucket_add (fst kt) (snd kt) m) [] es) [] = Inr c"
  shows "\<exists>es' c'. contributions entry D' = Inr es' \<and>
           reduce_loop g (foldl (\<lambda>m kt. bucket_add (fst kt) (snd kt) m) [] es') [] = Inr c' \<and>
           map_of c' = map_of c"
proof -
  let ?m = "foldl (\<lambda>m kt. bucket_add (fst kt) (snd kt) m) [] es"
  obtain es' where es': "contributions entry D' = Inr es'" and ms: "mset es' = mset es"
    using contributions_permute [OF p es] by blast
  let ?m' = "foldl (\<lambda>m kt. bucket_add (fst kt) (snd kt) m) [] es'"
  have d: "distinct (map fst ?m)" and d': "distinct (map fst ?m')"
    by (rule distinct_foldl_bucket_add, simp)+
  have b: "\<And>k. mset (bucket_of k es') = mset (bucket_of k es)"
    using ms by (rule bucket_of_permute)
  have be: "\<And>k. bucket_of k es' = [] \<longleftrightarrow> bucket_of k es = []"
    using b by (metis mset_zero_iff)
  have mean: "\<And>k. np_mean_axis0 (bucket_of k es') = np_mean_axis0 (bucket_of k es)"
    using b by (rule np_mean_axis0_permute)
  have lk: "\<And>k. map_of ?m k = (if bucket_of k es = [] then None else Some (bucket_of k es))"
    by (simp add: map_of_foldl_bucket_add)
  have lk': "\<And>k. map_of ?m' k = (if bucket_of k es' = [] then None else Some (bucket_of k es'))"
    by (simp add: map_of_foldl_bucket_add)
  have "\<forall>kv \<in> set ?m'. \<exists>mu. np_mean_axis0 (snd kv) = Inr mu"
  proof
    fix kv assume kv: "kv \<in> set ?m'"
    have s: "snd kv = bucket_of (fst kv) es'" and n: "bucket_of (fst kv) es' \<noteq> []"
      using foldl_bucket_add_entries [OF refl kv] by simp_all
    have "bucket_of (fst kv) es \<noteq> []"
      using n be by blast
    then have "map_of ?m (fst kv) = Some (bucket_of (fst kv) es)"
      by (simp add: lk)
    then have "(fst kv, bucket_of (fst kv) es) \<in> set ?m"
      by (rule map_of_SomeD)
    then obtain mu where "np_mean_axis0 (bucket_of (fst kv) es) = Inr mu"
      using reduce_loop_means [OF c] by force
    then show "\<exists>mu. np_mean_axis0 (snd kv) = Inr mu"
      unfolding s mean by blast
  qed
  then obtain c' where c': "reduce_loop g ?m' [] = Inr c'"
    using reduce_loop_total [of ?m' g "[]"] by blast
  have "map_of c' = map_of c"
  proof (rule ext)
    fix k
    show "map_of c' k = map_of c k"
    proof (cases "bucket_of k es = []")
      case True
      then show ?thesis
        unfolding reduce_loop_map_of [OF c' d'] reduce_loop_map_of [OF c d] lk lk' be
        by simp
    next
      case False
      then show ?thesis
        unfolding reduce_loop_map_of [OF c' d'] reduce_loop_map_of [OF c d] lk lk' be
        by (simp add: mean)
    qed
  qed
  with es' c' show ?thesis by blast
qed

text \<open>
  C9. Over exact arithmetic, permuting the list of documents changes no cumulative
  distribution: when grouping and reducing the documents succeeds, it succeeds on
  every permutation of them and gives the same vector for every group key. This
  holds per year, per journal and per dominant topic.
\<close>

theorem cumulative_permutation_invariant:
  assumes "mset D' = mset D"
  shows "(get_year_to_topics D = Inr ym \<and> get_year_to_cum_topics ym = Inr yc
            \<longrightarrow> (\<exists>ym' yc'. get_year_to_topics D' = Inr ym' \<and>
                   get_year_to_cum_topics ym' = Inr yc' \<and> map_of yc' = map_of yc))
       \<and> (plot_topics_in_journals_buckets D = Inr jm \<and> get_journal_to_cum_topics jm = Inr jc
            \<longrightarrow> (\<exists>jm' jc'. plot_topics_in_journals_buckets D' = Inr jm' \<and>
                   get_journal_to_cum_topics jm' = Inr jc' \<and> map_of jc' = map_of jc))
       \<and> (plot_topic_co_occurrence_buckets D = Inr dm \<and> plot_topic_co_occurrence_cum dm = Inr dc
            \<longrightarrow> (\<exists>dm' dc'. plot_topic_co_occurrence_buckets D' = Inr dm' \<and>
                   plot_topic_co_occurrence_cum dm' = Inr dc' \<and> map_of dc' = map_of dc))"
proof (intro conjI impI)
  assume a: "get_year_to_topics D = Inr ym \<and> get_year_to_cum_topics ym = Inr yc"
  then obtain es where es: "contributions year_entry D = Inr es"
      and m: "ym = foldl (\<lambda>m kt. bucket_add (fst kt) (snd kt) m) [] es"
    by (auto simp: get_year_to_topics_def year_loop_contributions split: sum.splits)
  have c: "reduce_loop (\<lambda>x. x) (foldl (\<lambda>m kt. bucket_add (fst kt) (snd kt) m) [] es) [] = Inr yc"
    using a m by (simp add: get_year_to_cum_topics_def cum_loop_reduce)
  obtain es' c' where r: "contributions year_entry D' = Inr es'"
      "reduce_loop (\<lambda>x. x) (foldl (\<lambda>m kt. bucket_add (fst kt) (snd kt) m) [] es') [] = Inr c'"
      "map_of c' = map_of yc"
    using group_reduce_permute [OF assms es c] by blast
  then show "\<exists>ym' yc'. get_year_to_topics D' = Inr ym' \<and>
                   get_year_to_cum_topics ym' = Inr yc' \<and> map_of yc' = map_of yc"
    by (simp add: get_year_to_topics_def year_loop_contributions get_year_to_cum_topics_def
        cum_loop_reduce)
next
  assume a: "plot_topics_in_journals_buckets D = Inr jm \<and> get_journal_to_cum_topics jm = Inr jc"
  then obtain es where es: "contributions journal_entry D = Inr es"
      and m: "jm = foldl (\<lambda>m kt. bucket_add (fst kt) (snd kt) m) [] es"
    by (auto simp: plot_topics_in_journals_buckets_def journal_loop_contributions split: sum.splits)
  have c: "reduce_loop (\<lambda>x. x) (foldl (\<lambda>m kt. bucket_add (fst kt) (snd kt) m) [] es) [] = Inr jc"
    using a m by (simp add: get_journal_to_cum_topics_def cum_loop_reduce)
  obtain es' c' where r: "contributions journal_entry D' = Inr es'"
      "reduce_loop (\<lambda>x. x) (foldl (\<lambda>m kt. bucket_add (fst kt) (snd kt) m) [] es') [] = Inr c'"
      "map_of c' = map_of jc"
    using group_reduce_permute [OF assms es c] by blast
  then show "\<exists>jm' jc'. plot_topics_in_journals_buckets D' = Inr jm' \<and>
                   get_journal_to_cum_topics jm' = Inr jc' \<and> map_of jc' = map_of jc"
    by (simp add: plot_topics_in_journals_buckets_def journal_loop_contributions
        get_journal_to_cum_topics_def cum_loop_reduce)
next
  assume a: "plot_topic_co_occurrence_buckets D = Inr dm \<and> plot_topic_co_occurrence_cum dm = Inr dc"
  then obtain es where es: "contributions dominant_entry D = Inr es"
      and m: "dm = foldl (\<lambda>m kt. bucket_add (fst kt) (snd kt) m) [] es"
    by (auto simp: plot_topic_co_occurrence_buckets_def dominant_loop_contributions split: sum.splits)
  have c: "reduce_loop times100 (foldl (\<lambda>m kt. bucket_add (fst kt) (snd kt) m) [] es) [] = Inr dc"
    using a m by (simp add: plot_topic_co_occurrence_cum_def dominant_cum_loop_reduce)
  obtain es' c' where r: "contributions dominant_entry D' = Inr es'"
      "reduce_loop times100 (foldl (\<lambda>m kt. bucket_add (fst kt) (snd kt) m) [] es') [] = Inr c'"
      "map_of c' = map_of dc"
    using group_reduce_permute [OF assms es c] by blast
  then show "\<exists>dm' dc'. plot_topic_co_occurrence_buckets D' = Inr dm' \<and>
                   plot_topic_co_occurrence_cum dm' = Inr dc' \<and> map_of dc' = map_of dc"
    by (simp add: plot_topic_co_occurrence_buckets_def dominant_loop_contributions
        plot_topic_co_occurrence_cum_def dominant_cum_loop_reduce)
qed


text \<open>Two documents of one year and one journal, in both orders.\<close>

theorem cumulative_permutation_invariant_witness:
  "mset [\<lparr>journal = ''J'', year = PInt 2000, title = ''U'', tokens = Absent,
           topics = Value [(''1'', 1), (''0'', 0)]\<rparr>,
         \<lparr>journal = ''J'', year = PInt 2000, title = ''T'', tokens = Absent,
           topics = Value [(''0'', 1/2), (''1'', 1/2)]\<rparr>]
   = mset [\<lparr>journal = ''J'', year = PInt 2000, title = ''T'', tokens = Absent,
             topics = Value [(''0'', 1/2), (''1'', 1/2)]\<rparr>,
           \<lparr>journal = ''J'', year = PInt 2000, title = ''U'', tokens = Absent,
             topics = Value [(''1'', 1), (''0'', 0)]\<rparr>] \<and>
   get_year_to_topics
     [\<lparr>journal = ''J'', year = PInt 2000, title = ''T'', tokens = Absent,
        topics = Value [(''0'', 1/2), (''1'', 1/2)]\<rparr>,
      \<lparr>journal = ''J'', year = PInt 2000, title = ''U'', tokens = Absent,
        topics = Value [(''1'', 1), (''0'', 0)]\<rparr>] = Inr [(2000, [[1/2, 1/2], [0, 1]])] \<and>
   get_year_to_cum_topics [(2000, [[1/2, 1/2], [0, 1]])] = Inr [(2000, Arr [1/4, 3/4])] \<and>
   (\<exists>ym' yc'. get_year_to_topics
       [\<lparr>journal = ''J'', year = PInt 2000, title = ''U'', tokens = Absent,
          topics = Value [(''1'', 1), (''0'', 0)]\<rparr>,
        \<lparr>journal = ''J'', year = PInt 2000, title = ''T'', tokens = Absent,
          topics = Value [(''0'', 1/2), (''1'', 1/2)]\<rparr>] = Inr ym' \<and>
      get_year_to_cum_topics ym' = Inr yc' \<and> map_of yc' = map_of [(2000, Arr [1/4, 3/4])]) \<and>
   (\<exists>jm' jc'. plot_topics_in_journals_buckets
       [\<lparr>journal = ''J'', year = PInt 2000, title = ''U'', tokens = Absent,
          topics = Value [(''1'', 1), (''0'', 0)]\<rparr>,
        \<lparr>journal = ''J'', year = PInt 2000, title = ''T'', tokens = Absent,
          topics = Value [(''0'', 1/2), (''1'', 1/2)]\<rparr>] = Inr jm' \<and>
      get_journal_to_cum_topics jm' = Inr jc' \<and> map_of jc' = map_of [(''J'', Arr [1/4, 3/4])]) \<and>
   (\<exists>dm' dc'. plot_topic_co_occurrence_buckets
       [\<lparr>journal = ''J'', year = PInt 2000, title = ''U'', tokens = Absent,
          topics = Value [(''1'', 1), (''0'', 0)]\<rparr>,
        \<lparr>journal = ''J'', year = PInt 2000, title = ''T'', tokens = Absent,
          topics = Value [(''0'', 1/2), (''1'', 1/2)]\<rparr>] = Inr dm' \<and>
      plot_topic_co_occurrence_cum dm' = Inr dc' \<and>
      map_of dc' = map_of [(0, Arr [50, 50]), (1, Arr [0, 100])])"
proof -
  let ?d1 = "\<lparr>journal = ''J'', year = PInt 2000, title = ''T'', tokens = Absent,
               topics = Value [(''0'', 1/2), (''1'', 1/2)]\<rparr>"
  let ?d2 = "\<lparr>journal = ''J'', year = PInt 2000, title = ''U'', tokens = Absent,
               topics = Value [(''1'', 1), (''0'', 0)]\<rparr>"
  have p: "mset [?d2, ?d1] = mset [?d1, ?d2]"
    by (simp add: add_mset_commute)
  have s1: "sorted_topics [(''0'', 1/2), (''1'', 1/2)] = Inr [1/2, 1/2]"
    and s2: "sorted_topics [(''1'', 1), (''0'', 0)] = Inr [0, 1]"
    by (simp_all add: sorted_topics_def py_int_0 py_int_1)
  have m1: "np_mean_axis0 [[1/2, 1/2], [0, 1]] = Inr (Arr [1/4, 3/4])"
    and m2: "np_mean_axis0 [[1/2, 1/2]] = Inr (Arr [1/2, 1/2])"
    and m3: "np_mean_axis0 [[0, 1]] = Inr (Arr [0, 1])"
    by (simp_all add: np_mean_axis0_def upt_rec)
  have y: "get_year_to_topics [?d1, ?d2] = Inr [(2000, [[1/2, 1/2], [0, 1]])]"
    by (simp add: get_year_to_topics_def py_int_val_def dict_contains_def dict_append_def
        topics_iteritems_def s1 s2)
  have yc: "get_year_to_cum_topics [(2000, [[1/2, 1/2], [0, 1]])] = Inr [(2000, Arr [1/4, 3/4])]"
    by (simp add: get_year_to_cum_topics_def m1)
  have j: "plot_topics_in_journals_buckets [?d1, ?d2] = Inr [(''J'', [[1/2, 1/2], [0, 1]])]"
    by (simp add: plot_topics_in_journals_buckets_def dict_contains_def dict_append_def s1 s2)
  have jc: "get_journal_to_cum_topics [(''J'', [[1/2, 1/2], [0, 1]])] = Inr [(''J'', Arr [1/4, 3/4])]"
    by (simp add: get_journal_to_cum_topics_def m1)
  have d: "plot_topic_co_occurrence_buckets [?d1, ?d2] = Inr [(0, [[1/2, 1/2]]), (1, [[0, 1]])]"
    by (simp add: plot_topic_co_occurrence_buckets_def dict_contains_def dict_append_def
        topics_iteritems_def s1 s2 py_max_def)
  have dc: "plot_topic_co_occurrence_cum [(0, [[1/2, 1/2]]), (1, [[0, 1]])]
      = Inr [(0, Arr [50, 50]), (1, Arr [0, 100])]"
    by (simp add: plot_topic_co_occurrence_cum_def m2 m3 times100_def)
  note t = cumulative_permutation_invariant [OF p,
      of "[(2000, [[1/2, 1/2], [0, 1]])]" "[(2000, Arr [1/4, 3/4])]"
         "[(''J'', [[1/2, 1/2], [0, 1]])]" "[(''J'', Arr [1/4, 3/4])]"
         "[(0, [[1/2, 1/2]]), (1, [[0, 1]])]" "[(0, Arr [50, 50]), (1, Arr [0, 100])]"]
  show ?thesis
    using t p y yc j jc d dc by blast
qed

section \<open>The inference pass\<close>

lemma dict_set_fresh: "k \<notin> fst ` set m \<Longrightarrow> dict_set k v m = m @ [(k, v)]"
  by (induction m) auto

lemma dic_topics_loop_keys:
  "fst ` set (dic_topics_loop ts dic) = fst ` set dic \<union> py_str ` fst ` set ts"
  by (induction ts arbitrary: dic) (auto simp: keys_dict_set)

lemma dic_topics_loop_distinct:
  "distinct (map fst ts) \<Longrightarrow> fst ` set dic \<inter> py_str ` fst ` set ts = {} \<Longrightarrow>
   dic_topics_loop ts dic = dic @ map (\<lambda>t. (py_str (fst t), snd t)) ts"
proof (induction ts arbitrary: dic)
  case Nil
  show ?case by simp
next
  case (Cons t ts)
  have fresh: "py_str (fst t) \<notin> fst ` set dic"
    using Cons.prems(2) by auto
  then have s: "dict_set (py_str (fst t)) (snd t) dic = dic @ [(py_str (fst t), snd t)]"
    by (rule dict_set_fresh)
  have "py_str (fst t) \<notin> py_str ` fst ` set ts"
  proof
    assume "py_str (fst t) \<in> py_str ` fst ` set ts"
    then obtain u where "u \<in> set ts" "py_str (fst t) = py_str (fst u)"
      by auto
    then have "fst t \<in> fst ` set ts"
      using py_str_inj by force
    then show False using Cons.prems(1) by simp
  qed
  then have "fst ` set (dic @ [(py_str (fst t), snd t)]) \<inter> py_str ` fst ` set ts = {}"
    using Cons.prems(2) by auto
  moreover have "distinct (map fst ts)"
    using Cons.prems(1) by simp
  ultimately have "dic_topics_loop ts (dic @ [(py_str (fst t), snd t)])
      = (dic @ [(py_str (fst t), snd t)]) @ map (\<lambda>t. (py_str (fst t), snd t)) ts"
    by (rule Cons.IH [rotated])
  then show ?case
    by (simp add: s)
qed

lemma infer_loop_collections:
  "infer_loop model D db =
     db(''publications'' := db ''publications'' @
          concat (map (\<lambda>d. case tokens d of
                              Value toks \<Rightarrow>
                                [\<lparr>journal = journal d, year = year d, title = title d,
                                  tokens = Absent,
                                  topics = Value (dic_topics_loop (model toks) [])\<rparr>]
                            | _ \<Rightarrow> []) D))"
proof (induction D arbitrary: db)
  case Nil
  show ?case by simp
next
  case (Cons d D)
  show ?case
    by (cases "tokens d") (auto simp: Cons.IH insert_one_to_collection_def fun_eq_iff)
qed

text \<open>
  C7. The inference pass leaves every collection but \<open>publications\<close> as it was, the
  raw records included, skips the documents without tokens, and adds to
  \<open>publications\<close>, for every document with tokens and in order, one record with the
  journal, year and title of the document, no tokens, and the topics dictionary built
  from the inferred distribution. The keys of that dictionary are the strings of the
  inferred topic ids; when the inferred ids are distinct, it is the inferred list
  with each id replaced by its string.
\<close>

theorem infer_pass:
  "(name \<noteq> ''publications'' \<longrightarrow> infer_document_topic_distribution model db name = db name)
   \<and> infer_document_topic_distribution model db ''publications'' =
       db ''publications'' @
         concat (map (\<lambda>d. case tokens d of
                             Value toks \<Rightarrow>
                               [\<lparr>journal = journal d, year = year d, title = title d,
                                 tokens = Absent,
                                 topics = Value (dic_topics_loop (model toks) [])\<rparr>]
                           | _ \<Rightarrow> []) (db ''publications_raw''))
   \<and> fst ` set (dic_topics_loop ts []) = py_str ` fst ` set ts
   \<and> (distinct (map fst ts)
        \<longrightarrow> dic_topics_loop ts [] = map (\<lambda>t. (py_str (fst t), snd t)) ts)"
proof (intro conjI impI)
  assume "name \<noteq> ''publications''"
  then show "infer_document_topic_distribution model db name = db name"
    by (simp add: infer_document_topic_distribution_def infer_loop_collections)
next
  show "infer_document_topic_distribution model db ''publications'' =
       db ''publications'' @
         concat (map (\<lambda>d. case tokens d of
                             Value toks \<Rightarrow>
                               [\<lparr>journal = journal d, year = year d, title = title d,
                                 tokens = Absent,
                                 topics = Value (dic_topics_loop (model toks) [])\<rparr>]
                           | _ \<Rightarrow> []) (db ''publications_raw''))"
    by (simp add: infer_document_topic_distribution_def infer_loop_collections
        read_collection_def)
next
  show "fst ` set (dic_topics_loop ts []) = py_str ` fst ` set ts"
    by (simp add: dic_topics_loop_keys)
next
  assume "distinct (map fst ts)"
  then show "dic_topics_loop ts [] = map (\<lambda>t. (py_str (fst t), snd t)) ts"
    using dic_topics_loop_distinct [of ts "[]"] by simp
qed

lemma py_str_0: "py_str 0 = ''0''"
  by (simp add: py_str_def digits.simps digit_chr_def)

lemma py_str_2: "py_str 2 = ''2''"
  by (simp add: py_str_def digits.simps digit_chr_def)

text \<open>
  A raw collection of one tokenised and one untokenised document, and a model that
  infers \<open>[(0, 1/4), (2, 3/4)]\<close>.
\<close>

theorem infer_pass_witness:
  "''publications_raw'' \<noteq> ''publications'' \<and>
   distinct (map fst [(0::int, 1/4::rat), (2, 3/4)]) \<and>
   infer_document_topic_distribution (\<lambda>toks. [(0, 1/4), (2, 3/4)])
     ((\<lambda>name. [])(''publications_raw'' :=
        [\<lparr>journal = ''J'', year = PInt 2000, title = ''T'', tokens = Value [''fish''],
          topics = Absent\<rparr>,
         \<lparr>journal = ''J'', year = PInt 2001, title = ''U'', tokens = PyNone,
          topics = Absent\<rparr>])) ''publications_raw''
     = [\<lparr>journal = ''J'', year = PInt 2000, title = ''T'', tokens = Value [''fish''],
         topics = Absent\<rparr>,
        \<lparr>journal = ''J'', year = PInt 2001, title = ''U'', tokens = PyNone,
         topics = Absent\<rparr>] \<and>
   infer_document_topic_distribution (\<lambda>toks. [(0, 1/4), (2, 3/4)])
     ((\<lambda>name. [])(''publications_raw'' :=
        [\<lparr>journal = ''J'', year = PInt 2000, title = ''T'', tokens = Value [''fish''],
          topics = Absent\<rparr>,
         \<lparr>journal = ''J'', year = PInt 2001, title = ''U'', tokens = PyNone,
          topics = Absent\<rparr>])) ''publications''
     = [\<lparr>journal = ''J'', year = PInt 2000, title = ''T'', tokens = Absent,
         topics = Value [(''0'', 1/4), (''2'', 3/4)]\<rparr>]"
proof -
  let ?db = "(\<lambda>name. [])(''publications_raw'' :=
        [\<lparr>journal = ''J'', year = PInt 2000, title = ''T'', tokens = Value [''fish''],
          topics = (Absent :: (string \<times> rat) list field)\<rparr>,
         \<lparr>journal = ''J'', year = PInt 2001, title = ''U'', tokens = PyNone,
          topics = Absent\<rparr>])"
  let ?model = "\<lambda>toks :: string list. [(0::int, 1/4::rat), (2, 3/4)]"
  have n: "''publications_raw'' \<noteq> ''publications''"
    by simp
  have d: "distinct (map fst [(0::int, 1/4::rat), (2, 3/4)])"
    by simp
  note t = infer_pass [of "''publications_raw''" ?model ?db "[(0, 1/4), (2, 3/4)]"]
  have raw: "infer_document_topic_distribution ?model ?db ''publications_raw''
      = ?db ''publications_raw''"
    using t n by blast
  from t d have "dic_topics_loop [(0, 1/4), (2, 3/4)] []
      = map (\<lambda>t. (py_str (fst t), snd t)) [(0, 1/4), (2, 3/4)]"
    by blast
  then have dic: "dic_topics_loop [(0, 1/4), (2, 3/4)] [] = [(''0'', 1/4), (''2'', 3/4)]"
    by (simp only: list.map fst_conv snd_conv py_str_0 py_str_2)
  have pub: "infer_document_topic_distribution ?model ?db ''publications''
      = [\<lparr>journal = ''J'', year = PInt 2000, title = ''T'', tokens = Absent,
          topics = Value [(''0'', 1/4), (''2'', 3/4)]\<rparr>]"
    using conjunct1 [OF conjunct2 [OF t]] by (simp add: dic del: dic_topics_loop.simps)
  show ?thesis
    using n d raw pub by simp
qed

section \<open>The titles table\<close>

lemma titles_loop_rows:
  "titles_loop D acc = Inr rows \<Longrightarrow>
   \<exists>new. rows = acc @ new \<and>
     list_all2 (\<lambda>d row. \<exists>items k p. topics d = Value items \<and> py_max snd items = Inr (k, p) \<and>
                  row = (year d, title d, journal d, k, p)) D new"
proof (induction D arbitrary: acc)
  case Nil
  then show ?case by simp
next
  case (Cons d D)
  from Cons.prems obtain items dom where
    i: "topics_iteritems d = Inr items" and m: "py_max snd items = Inr dom"
    and r: "titles_loop D (acc @ [(year d, title d, journal d, fst dom, snd dom)]) = Inr rows"
    by (auto split: sum.splits)
  have v: "topics d = Value items"
    using i by (auto simp: topics_iteritems_def split: field.splits)
  obtain new where new: "rows = (acc @ [(year d, title d, journal d, fst dom, snd dom)]) @ new"
    and l: "list_all2 (\<lambda>d row. \<exists>items k p. topics d = Value items \<and>
                  py_max snd items = Inr (k, p) \<and>
                  row = (year d, title d, journal d, k, p)) D new"
    using Cons.IH [OF r] by blast
  have "\<exists>items k p. topics d = Value items \<and> py_max snd items = Inr (k, p) \<and>
      (year d, title d, journal d, fst dom, snd dom) = (year d, title d, journal d, k, p)"
    using v m by (metis prod.collapse)
  then have "list_all2 (\<lambda>d row. \<exists>items k p. topics d = Value items \<and>
                  py_max snd items = Inr (k, p) \<and>
                  row = (year d, title d, journal d, k, p)) (d # D)
               ((year d, title d, journal d, fst dom, snd dom) # new)"
    using l by simp
  moreover have "rows = acc @ ((year d, title d, journal d, fst dom, snd dom) # new)"
    using new by simp
  ultimately show ?case by blast
qed

text \<open>
  C10. The titles table has one row per document, in order, of the shape
  (year, title, journal, dominant topic id, dominant topic probability). The id is
  the key of an entry of the stored distribution (a string) and the probability is
  the value of that entry, a maximum of the distribution. For a distribution
  written by the inference pass, the id is the string of an inferred topic id.
\<close>

theorem titles_rows:
  assumes "get_document_title_per_topic D = Inr rows"
  shows "length rows = length D \<and>
     (\<forall>i < length D. \<exists>items k p. topics (D ! i) = Value items \<and> (k, p) \<in> set items \<and>
        (\<forall>e \<in> set items. snd e \<le> p) \<and>
        rows ! i = (year (D ! i), title (D ! i), journal (D ! i), k, p) \<and>
        (\<forall>ts. items = dic_topics_loop ts [] \<longrightarrow> (\<exists>t \<in> set ts. k = py_str (fst t))))"
proof -
  let ?R = "\<lambda>d row. \<exists>items k p. topics d = Value items \<and> py_max snd items = Inr (k, p) \<and>
                  row = (year d, title d, journal d, k, p)"
  have l: "list_all2 ?R D rows"
    using titles_loop_rows [of D "[]" rows] assms
    by (simp add: get_document_title_per_topic_def)
  then have len: "length rows = length D"
    by (simp add: list_all2_lengthD)
  have "\<forall>i < length D. \<exists>items k p. topics (D ! i) = Value items \<and> (k, p) \<in> set items \<and>
        (\<forall>e \<in> set items. snd e \<le> p) \<and>
        rows ! i = (year (D ! i), title (D ! i), journal (D ! i), k, p) \<and>
        (\<forall>ts. items = dic_topics_loop ts [] \<longrightarrow> (\<exists>t \<in> set ts. k = py_str (fst t)))"
  proof (intro allI impI)
    fix i assume "i < length D"
    then obtain items k p where v: "topics (D ! i) = Value items"
        and m: "py_max snd items = Inr (k, p)"
        and r: "rows ! i = (year (D ! i), title (D ! i), journal (D ! i), k, p)"
      using list_all2_nthD [OF l] by blast
    have ne: "items \<noteq> []"
      using m by (auto simp: py_max_def)
    obtain m' pre post where "py_max snd items = Inr m'" "items = pre @ m' # post"
        "\<forall>x \<in> set items. snd x \<le> snd m'"
      using py_max_first [OF ne, of snd] by blast
    then have mem: "(k, p) \<in> set items" and mx: "\<forall>e \<in> set items. snd e \<le> p"
      using m by auto
    have "\<forall>ts. items = dic_topics_loop ts [] \<longrightarrow> (\<exists>t \<in> set ts. k = py_str (fst t))"
    proof (intro allI impI)
      fix ts assume "items = dic_topics_loop ts []"
      then have "fst ` set items = py_str ` fst ` set ts"
        by (simp add: dic_topics_loop_keys)
      moreover have "k \<in> fst ` set items"
        using mem by force
      ultimately show "\<exists>t \<in> set ts. k = py_str (fst t)"
        by auto
    qed
    then show "\<exists>items k p. topics (D ! i) = Value items \<and> (k, p) \<in> set items \<and>
        (\<forall>e \<in> set items. snd e \<le> p) \<and>
        rows ! i = (year (D ! i), title (D ! i), journal (D ! i), k, p) \<and>
        (\<forall>ts. items = dic_topics_loop ts [] \<longrightarrow> (\<exists>t \<in> set ts. k = py_str (fst t)))"
      using v mem mx r by blast
  qed
  with len show ?thesis by blast
qed

text \<open>One stored document whose dominant topic has the key \<open>'3'\<close>.\<close>

theorem titles_rows_witness:
  "get_document_title_per_topic
     [\<lparr>journal = ''J'', year = PInt 2000, title = ''T'', tokens = Absent,
       topics = Value [(''0'', 3/10), (''3'', 7/10)]\<rparr>]
     = Inr [(PInt 2000, ''T'', ''J'', ''3'', 7/10)] \<and>
   length [(PInt 2000, ''T'', ''J'', ''3'', 7/10::rat)]
     = length [\<lparr>journal = ''J'', year = PInt 2000, title = ''T'', tokens = Absent,
                topics = Value [(''0'', 3/10::rat), (''3'', 7/10)]\<rparr>]"
proof -
  have e: "get_document_title_per_topic
     [\<lparr>journal = ''J'', year = PInt 2000, title = ''T'', tokens = Absent,
       topics = Value [(''0'', 3/10), (''3'', 7/10)]\<rparr>]
     = Inr [(PInt 2000, ''T'', ''J'', ''3'', 7/10)]"
    by (simp add: get_document_title_per_topic_def topics_iteritems_def py_max_def)
  from titles_rows [OF e] have "length [(PInt 2000, ''T'', ''J'', ''3'', 7/10::rat)]
     = length [\<lparr>journal = ''J'', year = PInt 2000, title = ''T'', tokens = Absent,
                topics = Value [(''0'', 3/10::rat), (''3'', 7/10)]\<rparr>]"
    by blast
  with e show ?thesis by blast
qed

section \<open>Self-suppression\<close>

lemma suppress_step_keys:
  "map fst (map (\<lambda>(k, col). if k = i then (k, col[i := Some 0]) else (k, col)) cols) = map fst cols"
  by (induction cols) auto

lemma suppress_step_compose:
  "map (\<lambda>kc. (fst kc, if fst kc \<in> set rest then (snd kc)[fst kc := Some 0] else snd kc))
     (map (\<lambda>(k, col). if k = i then (k, col[i := Some 0]) else (k, col)) cols)
   = map (\<lambda>kc. (fst kc, if fst kc \<in> set (i # rest) then (snd kc)[fst kc := Some 0] else snd kc))
       cols"
  by (induction cols) auto

lemma suppress_loop_columns:
  "suppress_loop is df = Inr df' \<Longrightarrow>
   df_index df' = df_index df \<and>
   df_columns df' =
     map (\<lambda>kc. (fst kc, if fst kc \<in> set is then (snd kc)[fst kc := Some 0] else snd kc))
       (df_columns df)"
proof (induction "is" arbitrary: df)
  case Nil
  then show ?case by (simp add: map_idI)
next
  case (Cons i rest)
  let ?df1 = "df\<lparr>df_columns :=
      map (\<lambda>(k, col). if k = i then (k, col[i := Some 0]) else (k, col)) (df_columns df)\<rparr>"
  have r: "suppress_loop rest ?df1 = Inr df'"
    using Cons.prems by (simp split: if_splits)
  have c1: "df_columns ?df1 =
      map (\<lambda>(k, col). if k = i then (k, col[i := Some 0]) else (k, col)) (df_columns df)"
    and i1: "df_index ?df1 = df_index df"
    by simp_all
  have "df_columns df' =
     map (\<lambda>kc. (fst kc, if fst kc \<in> set rest then (snd kc)[fst kc := Some 0] else snd kc))
       (df_columns ?df1)"
    using Cons.IH [OF r] by (rule conjunct2)
  then have "df_columns df' =
     map (\<lambda>kc. (fst kc, if fst kc \<in> set (i # rest) then (snd kc)[fst kc := Some 0] else snd kc))
       (df_columns df)"
    unfolding c1 suppress_step_compose .
  moreover have "df_index df' = df_index df"
    using Cons.IH [OF r] i1 by simp
  ultimately show ?case by blast
qed

lemma suppress_loop_total:
  "(\<exists>df'. suppress_loop is df = Inr df') \<longleftrightarrow> set is \<subseteq> fst ` set (df_columns df)"
proof (induction "is" arbitrary: df)
  case Nil
  show ?case by simp
next
  case (Cons i rest)
  let ?df1 = "df\<lparr>df_columns :=
      map (\<lambda>(k, col). if k = i then (k, col[i := Some 0]) else (k, col)) (df_columns df)\<rparr>"
  have c1: "df_columns ?df1 =
      map (\<lambda>(k, col). if k = i then (k, col[i := Some 0]) else (k, col)) (df_columns df)"
    by simp
  have "map fst (df_columns ?df1) = map fst (df_columns df)"
    by (simp only: c1 suppress_step_keys)
  then have "set (map fst (df_columns ?df1)) = set (map fst (df_columns df))"
    by (rule arg_cong)
  then have k: "fst ` set (df_columns ?df1) = fst ` set (df_columns df)"
    by (simp only: set_map)
  have ih: "(\<exists>df'. suppress_loop rest ?df1 = Inr df') \<longleftrightarrow> set rest \<subseteq> fst ` set (df_columns df)"
    using Cons.IH [of ?df1] unfolding k .
  show ?case
  proof (cases "i \<in> fst ` set (df_columns df)")
    case True
    then have "suppress_loop (i # rest) df = suppress_loop rest ?df1"
      by (simp add: dict_contains_def)
    then show ?thesis
      using ih True by simp
  next
    case False
    then have "suppress_loop (i # rest) df = Inl KeyError"
      by (simp add: dict_contains_def)
    then show ?thesis
      using False by simp
  qed
qed

lemma suppress_loop_error: "suppress_loop is df = Inl e \<Longrightarrow> e = KeyError"
  by (induction "is" arbitrary: df) (auto split: if_splits)

lemma from_dict_frame:
  assumes "from_dict cum = Inr df"
  shows "\<exists>n. df_index df = [0..<n] \<and> map fst (df_columns df) = map fst cum \<and>
           (\<forall>kc \<in> set (df_columns df). length (snd kc) = n)"
proof (cases "cum = []")
  case True
  then have "df = \<lparr>df_index = [], df_columns = []\<rparr>"
    using assms by (simp add: from_dict_def)
  then have "df_index df = [0..<0] \<and> map fst (df_columns df) = map fst cum \<and>
           (\<forall>kc \<in> set (df_columns df). length (snd kc) = 0)"
    using True by simp
  then show ?thesis by blast
next
  case False
  let ?lens = "concat (map (\<lambda>kv. case snd kv of NaN \<Rightarrow> [] | Arr v \<Rightarrow> [length v]) cum)"
  obtain n ns where l: "?lens = n # ns"
    using assms False by (cases ?lens) (simp_all add: from_dict_def)
  have u: "\<forall>n' \<in> set ns. n' = n"
    and df: "df = \<lparr>df_index = [0..<n],
                  df_columns = map (\<lambda>kv. (fst kv, case snd kv of NaN \<Rightarrow> replicate n None
                                                   | Arr v \<Rightarrow> map Some v)) cum\<rparr>"
    using assms False l by (simp_all add: from_dict_def split: if_splits)
  have "\<forall>kv \<in> set cum. length (case snd kv of NaN \<Rightarrow> replicate n None | Arr v \<Rightarrow> map Some v) = n"
  proof
    fix kv assume kv: "kv \<in> set cum"
    show "length (case snd kv of NaN \<Rightarrow> replicate n None | Arr v \<Rightarrow> map Some v) = n"
    proof (cases "snd kv")
      case NaN
      then show ?thesis by simp
    next
      case (Arr v)
      then have "length v \<in> set ?lens"
        using kv by force
      then have "length v = n"
        using u l by auto
      then show ?thesis using Arr by simp
    qed
  qed
  then have "df_index df = [0..<n] \<and> map fst (df_columns df) = map fst cum \<and>
           (\<forall>kc \<in> set (df_columns df). length (snd kc) = n)"
    unfolding df by (simp add: comp_def)
  then show ?thesis by blast
qed


lemma cum_loop_bucket_mean:
  assumes "cum_loop m [] = Inr c" and "distinct (map fst m)" and "map_of m k = Some b"
  shows "\<exists>mu. np_mean_axis0 b = Inr mu \<and> map_of c k = Some mu"
proof -
  have r: "reduce_loop (\<lambda>x. x) m [] = Inr c"
    using assms(1) by (simp add: cum_loop_reduce)
  have "(k, b) \<in> set m"
    using assms(3) by (rule map_of_SomeD)
  then obtain mu where mu: "np_mean_axis0 b = Inr mu"
    using reduce_loop_means [OF r] by force
  then have "map_of c k = Some mu"
    using reduce_loop_map_of [OF r assms(2), of k] assms(3) by simp
  with mu show ?thesis by blast
qed

text \<open>
  On the data frame built from the per-dominant-topic cumulative distribution, the
  loop of the co-occurrence report completes exactly when every row has a column of
  its name, and then rows, columns and sizes are as before and every cell is
  unchanged except the cells whose row is the key of their column, which are zero.
  The per-year and per-journal reducers return, for every key, the mean of its
  bucket as it is.
\<close>

theorem self_suppress_diagonal:
  assumes "from_dict cum = Inr df"
  shows "((\<exists>df'. self_suppress df = Inr df') \<longleftrightarrow> set (df_index df) \<subseteq> fst ` set cum)
     \<and> (self_suppress df = Inr df' \<longrightarrow>
          df_index df' = df_index df \<and> length (df_columns df') = length (df_columns df) \<and>
          (\<forall>c < length (df_columns df).
             fst (df_columns df' ! c) = fst (df_columns df ! c) \<and>
             length (snd (df_columns df' ! c)) = length (snd (df_columns df ! c)) \<and>
             (\<forall>i < length (df_index df).
                snd (df_columns df' ! c) ! i =
                  (if i = fst (df_columns df ! c) then Some 0
                   else snd (df_columns df ! c) ! i))))
     \<and> (get_year_to_cum_topics ym = Inr yc \<and> distinct (map fst ym) \<and> map_of ym y = Some yb
          \<longrightarrow> (\<exists>mu. np_mean_axis0 yb = Inr mu \<and> map_of yc y = Some mu))
     \<and> (get_journal_to_cum_topics jm = Inr jc \<and> distinct (map fst jm) \<and> map_of jm j = Some jb
          \<longrightarrow> (\<exists>mu. np_mean_axis0 jb = Inr mu \<and> map_of jc j = Some mu))"
proof (intro conjI impI)
  obtain n where ix: "df_index df = [0..<n]" and keys: "map fst (df_columns df) = map fst cum"
      and len: "\<forall>kc \<in> set (df_columns df). length (snd kc) = n"
    using from_dict_frame [OF assms] by blast
  have "set (map fst (df_columns df)) = set (map fst cum)"
    using keys by (rule arg_cong)
  then have k: "fst ` set (df_columns df) = fst ` set cum"
    by (simp only: set_map)
  show "(\<exists>df'. self_suppress df = Inr df') \<longleftrightarrow> set (df_index df) \<subseteq> fst ` set cum"
    unfolding self_suppress_def suppress_loop_total k ..
  {
    assume s: "self_suppress df = Inr df'"
    let ?g = "\<lambda>kc. (fst kc, if fst kc \<in> set (df_index df)
                                then (snd kc)[fst kc := Some (0::rat)] else snd kc)"
    have i': "df_index df' = df_index df" and c': "df_columns df' = map ?g (df_columns df)"
      using suppress_loop_columns [of "df_index df" df df'] s
      by (simp_all add: self_suppress_def)
    show "df_index df' = df_index df"
      by (rule i')
    show "length (df_columns df') = length (df_columns df)"
      by (simp add: c')
    show "\<forall>c < length (df_columns df).
             fst (df_columns df' ! c) = fst (df_columns df ! c) \<and>
             length (snd (df_columns df' ! c)) = length (snd (df_columns df ! c)) \<and>
             (\<forall>i < length (df_index df).
                snd (df_columns df' ! c) ! i =
                  (if i = fst (df_columns df ! c) then Some 0
                   else snd (df_columns df ! c) ! i))"
    proof (intro allI impI)
      fix c assume c: "c < length (df_columns df)"
      let ?kc = "df_columns df ! c"
      have e: "df_columns df' ! c = ?g ?kc"
        using c by (simp add: c')
      have l: "length (snd ?kc) = n"
        using len c by simp
      have cells: "\<forall>i < length (df_index df).
                snd (df_columns df' ! c) ! i =
                  (if i = fst ?kc then Some 0 else snd ?kc ! i)"
      proof (intro allI impI)
        fix i assume "i < length (df_index df)"
        then have i: "i < n"
          by (simp add: ix)
        show "snd (df_columns df' ! c) ! i = (if i = fst ?kc then Some 0 else snd ?kc ! i)"
        proof (cases "fst ?kc \<in> set (df_index df)")
          case True
          then have "snd (df_columns df' ! c) = (snd ?kc)[fst ?kc := Some 0]"
            by (simp add: e)
          then show ?thesis
            using i l by (simp add: nth_list_update)
        next
          case False
          then have "i \<noteq> fst ?kc"
            using i by (auto simp: ix)
          moreover have "snd (df_columns df' ! c) = snd ?kc"
            using False by (simp add: e)
          ultimately show ?thesis by simp
        qed
      qed
      show "fst (df_columns df' ! c) = fst ?kc \<and>
             length (snd (df_columns df' ! c)) = length (snd ?kc) \<and>
             (\<forall>i < length (df_index df).
                snd (df_columns df' ! c) ! i =
                  (if i = fst ?kc then Some 0 else snd ?kc ! i))"
        using cells by (simp add: e)
    qed
  }
next
  assume "get_year_to_cum_topics ym = Inr yc \<and> distinct (map fst ym) \<and> map_of ym y = Some yb"
  then show "\<exists>mu. np_mean_axis0 yb = Inr mu \<and> map_of yc y = Some mu"
    using cum_loop_bucket_mean [of ym yc y yb] by (simp add: get_year_to_cum_topics_def)
next
  assume "get_journal_to_cum_topics jm = Inr jc \<and> distinct (map fst jm) \<and> map_of jm j = Some jb"
  then show "\<exists>mu. np_mean_axis0 jb = Inr mu \<and> map_of jc j = Some mu"
    using cum_loop_bucket_mean [of jm jc j jb] by (simp add: get_journal_to_cum_topics_def)
qed


text \<open>Two topics, each dominant in some document.\<close>

theorem self_suppress_diagonal_witness:
  "from_dict [(0, Arr [60, 40]), (1, Arr [0, 100])]
     = Inr \<lparr>df_index = [0, 1],
            df_columns = [(0, [Some 60, Some 40]), (1, [Some 0, Some 100])]\<rparr> \<and>
   self_suppress \<lparr>df_index = [0, 1],
                  df_columns = [(0, [Some 60, Some 40]), (1, [Some 0, Some 100])]\<rparr>
     = Inr \<lparr>df_index = [0, 1],
            df_columns = [(0, [Some 0, Some 40]), (1, [Some 0, Some 0])]\<rparr> \<and>
   set [0, 1] \<subseteq> fst ` set [(0::nat, Arr [60, 40]), (1, Arr [0, 100])] \<and>
   get_year_to_cum_topics [(0, [[1/2, 1/2]])] = Inr [(0, Arr [1/2, 1/2])] \<and>
   get_journal_to_cum_topics [(''J'', [[1/2, 1/2]])] = Inr [(''J'', Arr [1/2, 1/2])] \<and>
   (\<exists>mu. np_mean_axis0 [[1/2, 1/2]] = Inr mu \<and> map_of [(0::int, Arr [1/2, 1/2])] 0 = Some mu) \<and>
   (\<exists>mu. np_mean_axis0 [[1/2, 1/2]] = Inr mu \<and> map_of [(''J'', Arr [1/2, 1/2])] ''J'' = Some mu)"
proof -
  let ?df = "\<lparr>df_index = [0, 1],
              df_columns = [(0, [Some 60, Some 40]), (1, [Some 0, Some (100::rat)])]\<rparr>"
  have f: "from_dict [(0, Arr [60, 40]), (1, Arr [0, 100])] = Inr ?df"
    by (simp add: from_dict_def upt_rec)
  have s: "self_suppress ?df
      = Inr \<lparr>df_index = [0, 1],
             df_columns = [(0, [Some 0, Some 40]), (1, [Some 0, Some 0])]\<rparr>"
    by (simp add: self_suppress_def dict_contains_def)
  have m: "np_mean_axis0 [[1/2, 1/2]] = Inr (Arr [1/2, 1/2])"
    by (simp add: np_mean_axis0_def upt_rec)
  have y: "get_year_to_cum_topics [(0, [[1/2, 1/2]])] = Inr [(0, Arr [1/2, 1/2])]"
    by (simp add: get_year_to_cum_topics_def m)
  have j: "get_journal_to_cum_topics [(''J'', [[1/2, 1/2]])] = Inr [(''J'', Arr [1/2, 1/2])]"
    by (simp add: get_journal_to_cum_topics_def m)
  have dy: "distinct (map fst [(0::int, [[1/2, 1/2::rat]])])"
    and ly: "map_of [(0::int, [[1/2, 1/2::rat]])] 0 = Some [[1/2, 1/2]]"
    and dj: "distinct (map fst [(''J'', [[1/2, 1/2::rat]])])"
    and lj: "map_of [(''J'', [[1/2, 1/2::rat]])] ''J'' = Some [[1/2, 1/2]]"
    by simp_all
  note t = self_suppress_diagonal [OF f,
      of "\<lparr>df_index = [0, 1], df_columns = [(0, [Some 0, Some 40]), (1, [Some 0, Some 0])]\<rparr>"
         "[(0, [[1/2, 1/2]])]" "[(0, Arr [1/2, 1/2])]" 0 "[[1/2, 1/2]]"
         "[(''J'', [[1/2, 1/2]])]" "[(''J'', Arr [1/2, 1/2])]" "''J''" "[[1/2, 1/2]]"]
  have k: "set (df_index ?df) \<subseteq> fst ` set [(0::nat, Arr [60, 40]), (1, Arr [0, 100])]"
    using t s by blast
  have ky: "\<exists>mu. np_mean_axis0 [[1/2, 1/2]] = Inr mu \<and> map_of [(0::int, Arr [1/2, 1/2])] 0 = Some mu"
    using t y dy ly by blast
  have kj: "\<exists>mu. np_mean_axis0 [[1/2, 1/2]] = Inr mu \<and> map_of [(''J'', Arr [1/2, 1/2])] ''J'' = Some mu"
    using t j dj lj by blast
  have k': "set [0, 1] \<subseteq> fst ` set [(0::nat, Arr [60, 40]), (1, Arr [0, 100])]"
    using k by simp
  show ?thesis
    by (intro conjI f s k' y j ky kj)
qed

text \<open>The frame of a distribution with the single key \<open>0\<close> and two topics.\<close>

lemma from_dict_single_column:
  "from_dict [(0, Arr [60, 40])]
     = Inr \<lparr>df_index = [0, 1], df_columns = [(0, [Some 60, Some 40])]\<rparr>"
  by (simp add: from_dict_def upt_rec)

text \<open>
  C8. The co-occurrence report alone zeroes the diagonal of its frame; for two
  documents in which each of the two topics is dominant once, exactly the two
  diagonal cells become zero. But when a topic is dominant in no document, its row
  has no column of its name: for the single document \<open>{'0': 6/10, '1': 4/10}\<close> the
  frame has the rows \<open>0, 1\<close> and the single column \<open>0\<close>, and
  \<^verbatim>\<open>df[index][index] = 0.0\<close> raises \<^verbatim>\<open>KeyError\<close> at row \<open>1\<close> instead of leaving the
  off-diagonal cell as it is.
\<close>

theorem self_suppress_missing_column:
  "plot_topic_co_occurrence_buckets
     [\<lparr>journal = ''J'', year = PInt 2000, title = ''T'', tokens = Absent,
       topics = Value [(''0'', 6/10), (''1'', 4/10)]\<rparr>] = Inr [(0, [[6/10, 4/10]])] \<and>
   plot_topic_co_occurrence_cum [(0, [[6/10, 4/10]])] = Inr [(0, Arr [60, 40])] \<and>
   self_suppress \<lparr>df_index = [0, 1], df_columns = [(0, [Some 60, Some 40])]\<rparr>
     = Inl KeyError \<and>
   plot_topic_co_occurrence_frame
     [\<lparr>journal = ''J'', year = PInt 2000, title = ''T'', tokens = Absent,
       topics = Value [(''0'', 6/10), (''1'', 4/10)]\<rparr>] = Inl KeyError \<and>
   plot_topic_co_occurrence_frame
     [\<lparr>journal = ''J'', year = PInt 2000, title = ''T'', tokens = Absent,
       topics = Value [(''0'', 6/10), (''1'', 4/10)]\<rparr>,
      \<lparr>journal = ''J'', year = PInt 2000, title = ''U'', tokens = Absent,
       topics = Value [(''0'', 1/10), (''1'', 9/10)]\<rparr>]
     = Inr \<lparr>df_index = [0, 1],
            df_columns = [(0, [Some 0, Some 40]), (1, [Some 10, Some 0])]\<rparr>"
  by (simp add: plot_topic_co_occurrence_frame_def plot_topic_co_occurrence_buckets_def
      plot_topic_co_occurrence_cum_def topics_iteritems_def sorted_topics_def py_int_0 py_int_1
      py_max_def dict_contains_def dict_append_def np_mean_axis0_def times100_def from_dict_def
      self_suppress_def upt_rec)

end
